theory Spec2Isabelle
  imports Complex_Main "HOL-Library.Sublist" "HOL-Library.Word"
begin

section \<open>Values shared by the components\<close>

text \<open>
  JavaScript strings are modelled as \<^typ>\<open>string\<close>: one \<^typ>\<open>char\<close> per code unit,
  restricted to the code units below 256. The delimiter, the \<open>data:\<close> prefix and the step
  names of the protocol are ASCII. Bytes read from the network are \<^typ>\<open>8 word\<close>.
\<close>

type_synonym byte = "8 word"

text \<open>The values \<open>JSON.parse\<close> produces. An object keeps its members in order.\<close>

datatype json =
    JNull
  | JBool bool
  | JNum real
  | JStr string
  | JArr "json list"
  | JObj "(string \<times> json) list"

text \<open>
  Reading a property \<open>v.k\<close> of a parsed value, for the property names the code reads
  (\<open>step\<close>, \<open>data\<close>, \<open>agent\<close>, \<open>request_id\<close>): \<open>None\<close> is \<open>undefined\<close>. Reading a property of
  \<open>null\<close> throws; the callers below treat \<open>JNull\<close> before they read.
\<close>

fun get_prop :: "json \<Rightarrow> string \<Rightarrow> json option" where
  "get_prop (JObj kvs) k = map_of kvs k"
| "get_prop _ k = None"

text \<open>JavaScript truthiness of a parsed value; \<open>undefined\<close> is falsy.\<close>

fun truthy :: "json \<Rightarrow> bool" where
  "truthy JNull = False"
| "truthy (JBool b) = b"
| "truthy (JNum x) = (x \<noteq> 0)"
| "truthy (JStr s) = (s \<noteq> [])"
| "truthy (JArr xs) = True"
| "truthy (JObj kvs) = True"

fun truthy_opt :: "json option \<Rightarrow> bool" where
  "truthy_opt None = False"
| "truthy_opt (Some v) = truthy v"

text \<open>The nullish coalescing \<open>v ?? d\<close>: \<open>undefined\<close> and \<open>null\<close> give the default.\<close>

fun nullish_or :: "json option \<Rightarrow> json \<Rightarrow> json" where
  "nullish_or None d = d"
| "nullish_or (Some JNull) d = d"
| "nullish_or (Some v) d = v"

text \<open>Decimal digits of a number, as a template literal prints a status code.\<close>

fun string_of_nat :: "nat \<Rightarrow> string" where
  "string_of_nat n =
     (if n < 10 then [char_of (48 + n)]
      else string_of_nat (n div 10) @ [char_of (48 + n mod 10)])"

declare string_of_nat.simps [simp del]

subsection \<open>String primitives of the language\<close>

text \<open>
  \<open>String.prototype.split\<close> with a string separator. The first occurrence of the separator
  is looked for from the left; the text before it is one piece and the search goes on
  behind it. The empty separator splits into the single code units.
\<close>

primrec find_sep :: "string \<Rightarrow> string \<Rightarrow> (string \<times> string) option" where
  "find_sep sep [] = None"
| "find_sep sep (c # cs) =
     (if prefix sep (c # cs) then Some ([], drop (length sep) (c # cs))
      else map_option (\<lambda>(b, a). (c # b, a)) (find_sep sep cs))"

lemma find_sep_Some:
  "find_sep sep s = Some (b, a) \<Longrightarrow> s = b @ sep @ a"
proof (induction s arbitrary: b)
  case Nil
  then show ?case by simp
next
  case (Cons c cs)
  show ?case
  proof (cases "prefix sep (c # cs)")
    case True
    with Cons.prems have "b = []" and "a = drop (length sep) (c # cs)" by auto
    moreover from True obtain r where "c # cs = sep @ r" by (auto simp: prefix_def)
    ultimately show ?thesis by simp
  next
    case False
    with Cons.prems obtain b' where "find_sep sep cs = Some (b', a)" and "b = c # b'"
      by auto
    with Cons.IH show ?thesis by simp
  qed
qed

lemma find_sep_shorter:
  assumes "sep \<noteq> []" and "find_sep sep s = Some (b, a)"
  shows "length a < length s"
proof -
  from find_sep_Some [OF assms(2)] have "length s = length b + length sep + length a"
    by simp
  with assms(1) show ?thesis by (cases sep) auto
qed

function split_on :: "string \<Rightarrow> string \<Rightarrow> string list" where
  "split_on sep s =
     (if sep = [] then [s]
      else (case find_sep sep s of
              None \<Rightarrow> [s]
            | Some (b, a) \<Rightarrow> b # split_on sep a))"
  by pat_completeness auto
termination
  by (relation "measure (\<lambda>(sep, s). length s)") (auto dest: find_sep_shorter)

declare split_on.simps [simp del]

definition js_split :: "string \<Rightarrow> string \<Rightarrow> string list" where
  "js_split sep s = (if sep = [] then map (\<lambda>c. [c]) s else split_on sep s)"

text \<open>\<open>Array.prototype.join\<close> on strings.\<close>

fun js_join :: "string \<Rightarrow> string list \<Rightarrow> string" where
  "js_join sep [] = []"
| "js_join sep [x] = x"
| "js_join sep (x # y # ys) = x @ sep @ js_join sep (y # ys)"

text \<open>
  White space and line terminators of the language among the code units below 256:
  \<open>\s\<close> is tab, line feed, vertical tab, form feed, carriage return, space and the
  no-break space; a line terminator is line feed or carriage return.
\<close>

definition is_line_terminator :: "char \<Rightarrow> bool" where
  "is_line_terminator c = (c = CHR 0x0A \<or> c = CHR 0x0D)"

definition is_js_space :: "char \<Rightarrow> bool" where
  "is_js_space c =
     (c = CHR 0x09 \<or> c = CHR 0x0A \<or> c = CHR 0x0B \<or> c = CHR 0x0C \<or> c = CHR 0x0D \<or>
      c = CHR 0x20 \<or> c = CHR 0xA0)"

definition trim :: "string \<Rightarrow> string" where
  "trim s = rev (dropWhile is_js_space (rev (dropWhile is_js_space s)))"

section \<open>The stream client (EigentSSEClient)\<close>

record SSEEvent =
  step :: json
  data :: json

text \<open>
  The match of \<open>/^data:\s*(.+)$/m\<close>, giving the first group. \<open>match_rest\<close> is the part
  behind \<open>data:\<close>: the white space is skipped greedily and the group takes the rest of the
  line; when only white space follows, the engine backtracks and the group is the last
  white-space character that is not a line terminator, if there is one.
  \<open>match_data\<close> tries every start of a line from the left.
\<close>

definition match_rest :: "string \<Rightarrow> string option" where
  "match_rest r =
     (let rest = dropWhile is_js_space r in
      if rest \<noteq> [] then Some (takeWhile (\<lambda>c. \<not> is_line_terminator c) rest)
      else (case dropWhile is_line_terminator (rev r) of
              [] \<Rightarrow> None
            | c # _ \<Rightarrow> Some [c]))"

fun match_data :: "bool \<Rightarrow> string \<Rightarrow> string option" where
  "match_data line_start [] = None"
| "match_data line_start (c # cs) =
     (if line_start \<and> prefix ''data:'' (c # cs) then
        (case match_rest (drop 5 (c # cs)) of
           Some m \<Rightarrow> Some m
         | None \<Rightarrow> match_data (is_line_terminator c) cs)
      else match_data (is_line_terminator c) cs)"

text \<open>
  \<open>parseSSEChunk\<close>. \<open>JSON.parse\<close> is the language's own and is a parameter: \<open>None\<close> is
  its \<open>SyntaxError\<close>. The \<open>try\<close> also catches the \<open>TypeError\<close> of reading \<open>step\<close> from
  \<open>null\<close>.
\<close>

definition parseSSEChunk :: "(string \<Rightarrow> json option) \<Rightarrow> string \<Rightarrow> SSEEvent option" where
  "parseSSEChunk JSON_parse chunk =
     (case match_data True chunk of
        None \<Rightarrow> None
      | Some m \<Rightarrow>
          (case JSON_parse (trim m) of
             None \<Rightarrow> None
           | Some JNull \<Rightarrow> None
           | Some d \<Rightarrow>
               if truthy_opt (get_prop d ''step'')
               then Some \<lparr>step = the (get_prop d ''step''),
                          data = nullish_or (get_prop d ''data'') (JObj [])\<rparr>
               else None))"

text \<open>
  \<open>TextDecoder\<close> with \<open>stream: true\<close> is a state machine over the bytes: it keeps the
  unfinished code point between calls. It is a parameter: any step function on bytes.
\<close>

type_synonym 'd decoder = "'d \<Rightarrow> byte \<Rightarrow> 'd \<times> string"

fun decode_chunk :: "'d decoder \<Rightarrow> 'd \<Rightarrow> byte list \<Rightarrow> 'd \<times> string" where
  "decode_chunk dec d [] = (d, [])"
| "decode_chunk dec d (b # bs) =
     (case dec d b of (d1, t1) \<Rightarrow>
        (case decode_chunk dec d1 bs of (d2, t2) \<Rightarrow> (d2, t1 @ t2)))"

text \<open>
  The read loop of \<open>startChat\<close>. The reads of the body are a list of chunks, and the
  stream ends by \<open>done\<close> (\<open>None\<close>) or by a read that throws (\<open>Some message\<close>). The result
  is the events yielded, in order, and the error thrown behind them, if any.
\<close>

definition delimiter :: string where
  "delimiter = [CHR 0x0A, CHR 0x0A]"

definition parse_final :: "(string \<Rightarrow> json option) \<Rightarrow> string \<Rightarrow> SSEEvent list" where
  "parse_final JSON_parse buffer =
     (if trim buffer \<noteq> [] then
        (case parseSSEChunk JSON_parse buffer of Some ev \<Rightarrow> [ev] | None \<Rightarrow> [])
      else [])"

fun read_loop ::
  "(string \<Rightarrow> json option) \<Rightarrow> 'd decoder \<Rightarrow> 'd \<Rightarrow> string \<Rightarrow> byte list list \<Rightarrow>
     string option \<Rightarrow> SSEEvent list \<times> string option" where
  "read_loop JSON_parse dec d buffer [] fin =
     (case fin of
        Some m \<Rightarrow> ([], Some m)
      | None \<Rightarrow> (parse_final JSON_parse buffer, None))"
| "read_loop JSON_parse dec d buffer (v # vs) fin =
     (case decode_chunk dec d v of (d1, t) \<Rightarrow>
        (let buffer1 = buffer @ t;
             lines = js_split delimiter buffer1;
             buffer2 = (if lines = [] then [] else last lines);
             evs = List.map_filter (parseSSEChunk JSON_parse) (butlast lines)
         in (case read_loop JSON_parse dec d1 buffer2 vs fin of
               (evs', fin') \<Rightarrow> (evs @ evs', fin'))))"


subsection \<open>Requests and responses\<close>

record ChatParams =
  task_id :: string
  project_id :: string
  question :: string
  email :: string
  attaches :: "string list option"
  model_platform :: string
  model_type :: string
  api_key :: string
  api_url :: "string option"
  language :: "string option"
  browser_port :: "real option"
  max_retries :: "real option"
  allow_local_system :: "bool option"
  installed_mcp :: "json option"
  env_path :: "string option"
  file_save_path :: "string option"

record EigentSSEClient =
  baseUrl :: string
  apiKey :: "string option"

record request =
  req_url :: string
  req_method :: string
  req_headers :: "(string \<times> string) list"
  req_body :: "string option"

text \<open>
  What \<open>fetch\<close> resolves to. \<open>res_text\<close> is the body read as text, \<open>res_body\<close> the body
  read as a stream: the chunks of the reads and how the stream ends.
\<close>

record response =
  res_ok :: bool
  res_status :: nat
  res_statusText :: string
  res_text :: string
  res_body :: "(byte list list \<times> string option) option"

text \<open>The constructor strips one trailing slash of the base URL.\<close>

definition new_client :: "string \<Rightarrow> string option \<Rightarrow> EigentSSEClient" where
  "new_client url key =
     \<lparr>baseUrl = (if url \<noteq> [] \<and> last url = CHR ''/'' then butlast url else url),
      apiKey = key\<rparr>"

definition headers :: "EigentSSEClient \<Rightarrow> (string \<times> string) list" where
  "headers c =
     (''Content-Type'', ''application/json'') #
     (case apiKey c of
        None \<Rightarrow> []
      | Some k \<Rightarrow> if k \<noteq> [] then [(''Authorization'', ''Bearer '' @ k)] else [])"

definition toChatBody :: "ChatParams \<Rightarrow> (string \<times> json) list" where
  "toChatBody params =
     [(''task_id'', JStr (task_id params)),
      (''project_id'', JStr (project_id params)),
      (''question'', JStr (question params)),
      (''email'', JStr (email params)),
      (''attaches'', JArr (map JStr (case attaches params of None \<Rightarrow> [] | Some a \<Rightarrow> a))),
      (''model_platform'', JStr (model_platform params)),
      (''model_type'', JStr (model_type params)),
      (''api_key'', JStr (api_key params)),
      (''language'', JStr (case language params of None \<Rightarrow> ''en'' | Some l \<Rightarrow> l)),
      (''browser_port'', JNum (case browser_port params of None \<Rightarrow> 9222 | Some n \<Rightarrow> n)),
      (''max_retries'', JNum (case max_retries params of None \<Rightarrow> 3 | Some n \<Rightarrow> n)),
      (''allow_local_system'',
         JBool (case allow_local_system params of None \<Rightarrow> False | Some b \<Rightarrow> b)),
      (''installed_mcp'',
         (case installed_mcp params of
            None \<Rightarrow> JObj [(''mcpServers'', JObj [])]
          | Some m \<Rightarrow> m))]
     @ (case api_url params of None \<Rightarrow> [] | Some u \<Rightarrow> [(''api_url'', JStr u)])
     @ (case env_path params of None \<Rightarrow> [] | Some e \<Rightarrow> [(''env_path'', JStr e)])"

text \<open>
  \<open>startChat\<close>. \<open>JSON.stringify\<close> and \<open>JSON.parse\<close> are parameters, and so is what
  \<open>fetch\<close> resolves to (\<open>Inl\<close>: it rejects). The result is the request issued, the events
  yielded and the error thrown behind them, if any.
\<close>

definition startChat_request ::
  "(json \<Rightarrow> string) \<Rightarrow> EigentSSEClient \<Rightarrow> ChatParams \<Rightarrow> request" where
  "startChat_request JSON_stringify c params =
     \<lparr>req_url = baseUrl c @ ''/chat'', req_method = ''POST'', req_headers = headers c,
      req_body = Some (JSON_stringify (JObj (toChatBody params)))\<rparr>"

definition startChat ::
  "(json \<Rightarrow> string) \<Rightarrow> (string \<Rightarrow> json option) \<Rightarrow> 'd decoder \<Rightarrow> 'd \<Rightarrow>
     EigentSSEClient \<Rightarrow> ChatParams \<Rightarrow> string + response \<Rightarrow>
     request \<times> SSEEvent list \<times> string option" where
  "startChat JSON_stringify JSON_parse dec d0 c params fetched =
     (startChat_request JSON_stringify c params,
      (case fetched of
         Inl m \<Rightarrow> ([], Some m)
       | Inr res \<Rightarrow>
           if \<not> res_ok res then
             ([], Some (''Eigent startChat failed: '' @ string_of_nat (res_status res) @ '' ''
                        @ res_statusText res @ '' - '' @ res_text res))
           else
             (case res_body res of
                None \<Rightarrow> ([], Some ''Eigent startChat: no response body'')
              | Some (chunks, fin) \<Rightarrow> read_loop JSON_parse dec d0 [] chunks fin)))"

subsection \<open>The control calls\<close>

text \<open>
  Each control call issues one request and throws when the response is not successful.
  The model gives the error thrown, \<open>None\<close> when the call returns. \<open>fetch\<close> is a
  parameter: \<open>Inl\<close> when it rejects.
\<close>

definition stopChat ::
  "(request \<Rightarrow> string + response) \<Rightarrow> EigentSSEClient \<Rightarrow> string \<Rightarrow> string option" where
  "stopChat fetch c pid =
     (case fetch \<lparr>req_url = baseUrl c @ ''/chat/'' @ pid, req_method = ''DELETE'',
                  req_headers = headers c, req_body = None\<rparr> of
        Inl m \<Rightarrow> Some m
      | Inr res \<Rightarrow>
          if \<not> res_ok res \<and> res_status res \<noteq> 204
          then Some (''Eigent stopChat failed: '' @ string_of_nat (res_status res) @ '' - ''
                     @ res_text res)
          else None)"

definition humanReply ::
  "(request \<Rightarrow> string + response) \<Rightarrow> (json \<Rightarrow> string) \<Rightarrow> EigentSSEClient \<Rightarrow> string \<Rightarrow>
     json \<Rightarrow> string \<Rightarrow> string option" where
  "humanReply fetch JSON_stringify c pid agent reply =
     (case fetch \<lparr>req_url = baseUrl c @ ''/chat/'' @ pid @ ''/human-reply'',
                  req_method = ''POST'', req_headers = headers c,
                  req_body = Some (JSON_stringify
                    (JObj [(''agent'', agent), (''reply'', JStr reply)]))\<rparr> of
        Inl m \<Rightarrow> Some m
      | Inr res \<Rightarrow>
          if \<not> res_ok res
          then Some (''Eigent humanReply failed: '' @ string_of_nat (res_status res) @ '' - ''
                     @ res_text res)
          else None)"

record ToolResult =
  success :: bool
  content :: "string option"
  error :: "string option"

definition json_of_result :: "ToolResult \<Rightarrow> json" where
  "json_of_result r =
     JObj ([(''success'', JBool (success r))]
           @ (case content r of None \<Rightarrow> [] | Some c \<Rightarrow> [(''content'', JStr c)])
           @ (case error r of None \<Rightarrow> [] | Some e \<Rightarrow> [(''error'', JStr e)]))"

definition toolResult ::
  "(request \<Rightarrow> string + response) \<Rightarrow> (json \<Rightarrow> string) \<Rightarrow> EigentSSEClient \<Rightarrow> string \<Rightarrow>
     json \<Rightarrow> string \<Rightarrow> ToolResult \<Rightarrow> string option" where
  "toolResult fetch JSON_stringify c pid requestId toolName result =
     (case fetch \<lparr>req_url = baseUrl c @ ''/chat/'' @ pid @ ''/tool-result'',
                  req_method = ''POST'', req_headers = headers c,
                  req_body = Some (JSON_stringify
                    (JObj [(''request_id'', requestId), (''tool_name'', JStr toolName),
                           (''result'', json_of_result result)]))\<rparr> of
        Inl m \<Rightarrow> Some m
      | Inr res \<Rightarrow>
          if \<not> res_ok res
          then Some (''Eigent toolResult failed: '' @ string_of_nat (res_status res) @ '' - ''
                     @ res_text res)
          else None)"

section \<open>Building the request descriptor (buildEigentChatParams)\<close>

record ApiConfiguration =
  cfg_apiProvider :: "string option"
  cfg_openRouterApiKey :: "string option"
  cfg_openAiApiKey :: "string option"
  cfg_apiKey :: "string option"
  cfg_openRouterBaseUrl :: "string option"
  cfg_openAiBaseUrl :: "string option"

text \<open>A string field that is set and truthy, that is, not empty.\<close>

fun nonempty :: "string option \<Rightarrow> string option" where
  "nonempty None = None"
| "nonempty (Some s) = (if s = [] then None else Some s)"

definition getApiKey :: "ApiConfiguration \<Rightarrow> string" where
  "getApiKey config =
     (let p = cfg_apiProvider config in
      case (if p = Some ''openrouter'' then nonempty (cfg_openRouterApiKey config) else None) of
        Some k \<Rightarrow> k
      | None \<Rightarrow>
      (case (if p = Some ''openai'' then nonempty (cfg_openAiApiKey config) else None) of
        Some k \<Rightarrow> k
      | None \<Rightarrow>
      (case (if p = Some ''anthropic'' then nonempty (cfg_apiKey config) else None) of
        Some k \<Rightarrow> k
      | None \<Rightarrow>
      (case nonempty (cfg_openAiApiKey config) of
        Some k \<Rightarrow> k
      | None \<Rightarrow>
      (case nonempty (cfg_openRouterApiKey config) of
        Some k \<Rightarrow> k
      | None \<Rightarrow>
      (case nonempty (cfg_apiKey config) of
        Some k \<Rightarrow> k
      | None \<Rightarrow> ''not-provided''))))))"

definition getApiUrl :: "ApiConfiguration \<Rightarrow> string option" where
  "getApiUrl config =
     (case (if cfg_apiProvider config = Some ''openrouter''
            then nonempty (cfg_openRouterBaseUrl config) else None) of
        Some u \<Rightarrow> Some u
      | None \<Rightarrow>
          (if cfg_apiProvider config = Some ''openai''
           then nonempty (cfg_openAiBaseUrl config) else None))"

text \<open>
  \<open>buildEigentChatParams\<close>. What the collaborators return is given: \<open>uuid\<close> is the value
  of \<open>crypto.randomUUID()\<close>, \<open>model_id\<close> the identifier of the model of the API handler,
  \<open>default_workspace\<close> the value of \<open>getWorkspacePath()\<close>.
\<close>

definition buildEigentChatParams ::
  "string \<Rightarrow> string \<Rightarrow> string \<Rightarrow> ApiConfiguration \<Rightarrow> string \<Rightarrow> string list option \<Rightarrow>
     string option \<Rightarrow> ChatParams" where
  "buildEigentChatParams uuid model_id default_workspace apiConfiguration q images workspacePath =
     (let id = uuid;
          projectId = id;
          taskId = id;
          attaches' = (case images of None \<Rightarrow> [] | Some is \<Rightarrow> is)
      in \<lparr>task_id = taskId,
          project_id = projectId,
          question = q,
          email = ''user@ascende.local'',
          attaches = Some attaches',
          model_platform = ''openai-compatible-model'',
          model_type = model_id,
          api_key = getApiKey apiConfiguration,
          api_url = getApiUrl apiConfiguration,
          language = Some ''en'',
          browser_port = Some 9222,
          max_retries = Some 3,
          allow_local_system = Some True,
          installed_mcp = Some (JObj [(''mcpServers'', JObj [])]),
          env_path = None,
          file_save_path =
            Some (case workspacePath of None \<Rightarrow> default_workspace | Some p \<Rightarrow> p)\<rparr>)"

section \<open>The delegated tool executor (ToolExecutor)\<close>



record ExecuteSearchReplaceData =
  sr_request_id :: string
  sr_path :: string
  sr_old_string :: string
  sr_new_string :: string



text \<open>How a child process ended, as the process library reports it.\<close>

record process =
  p_failed :: bool
  p_exitCode :: int
  p_all :: "string option"
  p_stdout :: "string option"
  p_stderr :: "string option"
  p_message :: string

text \<open>
  The platform under the executor: the path functions, the text codec, the workspace
  file system, the file search, the directory walk \<open>listFiles\<close> of this repository
  (its source is not among the files) and the spawning of a shell. They are parameters,
  over any type \<open>'w\<close> of states of the machine. An operation that can throw gives the
  message thrown (\<open>Inl\<close>, or \<open>Some\<close> for the write).
\<close>

record 'w platform =
  path_isAbsolute :: "string \<Rightarrow> bool"
  path_resolve :: "string \<Rightarrow> string \<Rightarrow> string"
  path_relative :: "string \<Rightarrow> string \<Rightarrow> string"
  text_encode :: "string \<Rightarrow> byte list"
  text_decode :: "byte list \<Rightarrow> string"
  fs_readFile :: "'w \<Rightarrow> string \<Rightarrow> string + byte list"
  fs_writeFile :: "'w \<Rightarrow> string \<Rightarrow> byte list \<Rightarrow> string option \<times> 'w"
  workspaceFolder :: "'w \<Rightarrow> string option"
  findFiles :: "'w \<Rightarrow> string \<Rightarrow> string \<Rightarrow> nat \<Rightarrow> string + string list"
  listFiles :: "'w \<Rightarrow> string \<Rightarrow> bool \<Rightarrow> nat \<Rightarrow> string + (string list \<times> bool)"
  spawn :: "'w \<Rightarrow> string \<Rightarrow> string \<Rightarrow> process \<times> 'w"

definition result_ok :: "string \<Rightarrow> ToolResult" where
  "result_ok c = \<lparr>success = True, content = Some c, error = None\<rparr>"

definition result_fail :: "string \<Rightarrow> ToolResult" where
  "result_fail m = \<lparr>success = False, content = None, error = Some m\<rparr>"

definition resolvePath :: "'w platform \<Rightarrow> string \<Rightarrow> string \<Rightarrow> string" where
  "resolvePath P workspacePath relPath =
     (if path_isAbsolute P relPath then relPath else path_resolve P workspacePath relPath)"



definition executeSearchReplace ::
  "'w platform \<Rightarrow> string \<Rightarrow> ExecuteSearchReplaceData \<Rightarrow> 'w \<Rightarrow> ToolResult \<times> 'w" where
  "executeSearchReplace P workspacePath d w =
     (let fullPath = resolvePath P workspacePath (sr_path d)
      in case fs_readFile P w fullPath of
           Inl m \<Rightarrow> (result_fail m, w)
         | Inr bytes \<Rightarrow>
             (let content' = text_decode P bytes;
                  newContent = js_join (sr_new_string d) (js_split (sr_old_string d) content')
              in if content' = newContent
                 then (result_ok ''No changes needed (old_string not found)'', w)
                 else (case fs_writeFile P w fullPath (text_encode P newContent) of
                         (None, w') \<Rightarrow> (result_ok ''Search and replace completed'', w')
                       | (Some m, w') \<Rightarrow> (result_fail m, w'))))"




section \<open>The orchestrator (EigentOrchestrator)\<close>

text \<open>
  Configuration of the backend: what the setting holds, or the default for development.
  A setting is any value of the settings file, not only a string.
\<close>

definition getAscendeBackendUrl :: "json option \<Rightarrow> json" where
  "getAscendeBackendUrl configured = nullish_or configured (JStr ''http://localhost:8000'')"

text \<open>
  The constructor of the client on such a base URL: a value that is not a string has no
  \<open>replace\<close>, and the constructor throws.
\<close>

definition new_EigentSSEClient :: "json \<Rightarrow> string option \<Rightarrow> string + EigentSSEClient" where
  "new_EigentSSEClient url key =
     (case url of
        JStr u \<Rightarrow> Inr (new_client u key)
      | _ \<Rightarrow> Inl ''options.baseUrl.replace is not a function'')"

text \<open>
  What an observer of the orchestrator sees, in order: the messages posted to the
  webview, the signals emitted, the control calls issued through the client and the
  runs of the tool executor.
\<close>

datatype signal = TaskStarted | TaskCompleted string | TaskAborted

datatype action =
    PostMessage json json
  | Emit signal
  | CallStopChat string
  | CallHumanReply string json string
  | RunTool string json
  | CallToolResult string json string ToolResult

text \<open>
  The fields of the class. The pending human reply is its agent; its \<open>resolve\<close> is the
  continuation of the wait, below. \<open>world\<close> is the state of the machine the tools act on.
\<close>

record 'w orchestrator =
  client :: "EigentSSEClient option"
  projectId :: string
  taskId :: string
  aborted :: bool
  pendingHumanReply :: "json option"
  world :: 'w

text \<open>
  The collaborators of the orchestrator: the network under the control calls, the
  serializer, the setting of the backend URL, what the read of the API key from the
  secret store resolves to (\<open>Inl\<close>: it rejects), and the five operations of the tool
  executor on the payload of the event as it arrived (the cast of the payload to the
  operation's type is unchecked).
\<close>

record 'w env =
  fetch :: "request \<Rightarrow> string + response"
  JSON_stringify :: "json \<Rightarrow> string"
  configuredUrl :: "json option"
  secretApiKey :: "string + string option"
  tool_executeFileWrite :: "json \<Rightarrow> 'w \<Rightarrow> ToolResult \<times> 'w"
  tool_executeReadFile :: "json \<Rightarrow> 'w \<Rightarrow> ToolResult \<times> 'w"
  tool_executeSearchReplace :: "json \<Rightarrow> 'w \<Rightarrow> ToolResult \<times> 'w"
  tool_executeListFiles :: "json \<Rightarrow> 'w \<Rightarrow> ToolResult \<times> 'w"
  tool_executeTerminal :: "json \<Rightarrow> 'w \<Rightarrow> ToolResult \<times> 'w"

definition isRunning :: "'w orchestrator \<Rightarrow> bool" where
  "isRunning st = (projectId st \<noteq> [] \<and> \<not> aborted st)"

text \<open>
  The two methods the user interface calls while a task runs. Each gives the value the
  pending wait is resolved with, if one was pending, the new fields and what was
  observed. A failure of the stop call is swallowed.
\<close>

definition submitHumanReply ::
  "string \<Rightarrow> 'w orchestrator \<Rightarrow> string option \<times> 'w orchestrator \<times> action list" where
  "submitHumanReply reply st =
     (case pendingHumanReply st of
        Some agent \<Rightarrow> (Some reply, st\<lparr>pendingHumanReply := None\<rparr>, [])
      | None \<Rightarrow> (None, st, []))"

definition abortTask ::
  "'w env \<Rightarrow> 'w orchestrator \<Rightarrow> string option \<times> 'w orchestrator \<times> action list" where
  "abortTask E st =
     (let st1 = st\<lparr>aborted := True\<rparr>;
          resolved = (case pendingHumanReply st1 of Some agent \<Rightarrow> Some [] | None \<Rightarrow> None);
          st2 = (case pendingHumanReply st1 of
                   Some agent \<Rightarrow> st1\<lparr>pendingHumanReply := None\<rparr>
                 | None \<Rightarrow> st1);
          stop = (if projectId st2 \<noteq> [] \<and> client st2 \<noteq> None
                  then (let swallowed = stopChat (fetch E) (the (client st2)) (projectId st2)
                        in [CallStopChat (projectId st2)])
                  else [])
      in (resolved, st2, stop @ [Emit TaskAborted]))"

datatype ext_call = Abort | Submit string

fun external ::
  "'w env \<Rightarrow> ext_call \<Rightarrow> 'w orchestrator \<Rightarrow> string option \<times> 'w orchestrator \<times> action list"
  where
  "external E Abort st = abortTask E st"
| "external E (Submit reply) st = submitHumanReply reply st"

text \<open>
  A run of \<open>startTask\<close> is driven by a timeline: the events the stream yields and the
  calls of the user interface, in the order in which they arrive. A call is taken where
  the loop is suspended: at the read of the next event and in the wait for the human
  reply; a call that arrives while a tool or a control call is in flight is taken at the
  next read. While the loop waits for the reply, the events of the stream stay queued.
  \<open>abortTask\<close> is one step: its stop call and its signal are not interleaved with the
  loop.
\<close>

datatype item = Event SSEEvent | External ext_call

text \<open>
  \<open>waitForHumanReply\<close> registers the pending reply; the wait ends with the first call
  that resolves it. \<open>None\<close>: no call ever resolves it and the wait does not end.
\<close>

fun await_resolution ::
  "'w env \<Rightarrow> 'w orchestrator \<Rightarrow> item list \<Rightarrow>
     (string \<times> 'w orchestrator \<times> item list \<times> action list) option" where
  "await_resolution E st [] = None"
| "await_resolution E st (Event e # q) =
     (case await_resolution E st q of
        None \<Rightarrow> None
      | Some (reply, st', q', acts) \<Rightarrow> Some (reply, st', Event e # q', acts))"
| "await_resolution E st (External x # q) =
     (case external E x st of
        (Some reply, st', acts) \<Rightarrow> Some (reply, st', q, acts)
      | (None, st', acts) \<Rightarrow>
          (case await_resolution E st' q of
             None \<Rightarrow> None
           | Some (reply, st'', q', acts') \<Rightarrow> Some (reply, st'', q', acts @ acts')))"

definition waitForHumanReply ::
  "'w env \<Rightarrow> json \<Rightarrow> 'w orchestrator \<Rightarrow> item list \<Rightarrow>
     (string \<times> 'w orchestrator \<times> item list \<times> action list) option" where
  "waitForHumanReply E agent st q =
     await_resolution E (st\<lparr>pendingHumanReply := Some agent\<rparr>) q"

text \<open>How a piece of the run ends: it returns, it throws, or it waits without end.\<close>

datatype outcome = Normal | Threw string | Pending

definition run_tool ::
  "'w env \<Rightarrow> string \<Rightarrow> json \<Rightarrow> 'w \<Rightarrow> (ToolResult \<times> 'w) option" where
  "run_tool E toolName d w =
     (if toolName = ''execute_file_write'' then Some (tool_executeFileWrite E d w)
      else if toolName = ''execute_read_file'' then Some (tool_executeReadFile E d w)
      else if toolName = ''execute_search_replace'' then Some (tool_executeSearchReplace E d w)
      else if toolName = ''execute_list_files'' then Some (tool_executeListFiles E d w)
      else if toolName = ''execute_terminal'' then Some (tool_executeTerminal E d w)
      else None)"

definition executeAndPostResult ::
  "'w env \<Rightarrow> string \<Rightarrow> json \<Rightarrow> 'w orchestrator \<Rightarrow> outcome \<times> 'w orchestrator \<times> action list"
  where
  "executeAndPostResult E toolName d st =
     (let requestId = get_prop d ''request_id'' in
      if \<not> truthy_opt requestId \<or> client st = None \<or> projectId st = [] then (Normal, st, [])
      else
        (case run_tool E toolName d (world st) of
           None \<Rightarrow> (Normal, st, [])
         | Some (result, w') \<Rightarrow>
             ((case toolResult (fetch E) (JSON_stringify E) (the (client st)) (projectId st)
                      (the requestId) toolName result of
                 None \<Rightarrow> Normal
               | Some m \<Rightarrow> Threw m),
              st\<lparr>world := w'\<rparr>,
              [RunTool toolName d,
               CallToolResult (projectId st) (the requestId) toolName result])))"

definition delegated_step :: "json \<Rightarrow> string option" where
  "delegated_step s =
     (if s = JStr ''execute_file_write'' then Some ''execute_file_write''
      else if s = JStr ''execute_read_file'' then Some ''execute_read_file''
      else if s = JStr ''execute_search_replace'' then Some ''execute_search_replace''
      else if s = JStr ''execute_list_files'' then Some ''execute_list_files''
      else if s = JStr ''execute_terminal'' then Some ''execute_terminal''
      else None)"

text \<open>
  \<open>handleEvent\<close>: the event is posted to the webview, then dispatched on its step. The
  result also gives the timeline left, since the wait of an \<open>ask\<close> takes a call from it.
\<close>

definition handleEvent ::
  "'w env \<Rightarrow> SSEEvent \<Rightarrow> 'w orchestrator \<Rightarrow> item list \<Rightarrow>
     outcome \<times> 'w orchestrator \<times> item list \<times> action list" where
  "handleEvent E event st q =
     (let post = PostMessage (step event) (data event);
          d = data event
      in if step event = JStr ''ask'' then
           (let agent = nullish_or (get_prop d ''agent'') (JStr []) in
            case waitForHumanReply E agent st q of
              None \<Rightarrow> (Pending, st\<lparr>pendingHumanReply := Some agent\<rparr>, q, [post])
            | Some (reply, st1, q1, acts) \<Rightarrow>
                if reply \<noteq> [] \<and> client st1 \<noteq> None \<and> projectId st1 \<noteq> [] then
                  ((case humanReply (fetch E) (JSON_stringify E) (the (client st1))
                           (projectId st1) agent reply of
                      None \<Rightarrow> Normal
                    | Some m \<Rightarrow> Threw m),
                   st1, q1, post # acts @ [CallHumanReply (projectId st1) agent reply])
                else (Normal, st1, q1, post # acts))
         else
           (case delegated_step (step event) of
              Some toolName \<Rightarrow>
                (case executeAndPostResult E toolName d st of
                   (r, st1, acts) \<Rightarrow> (r, st1, q, post # acts))
            | None \<Rightarrow> (Normal, st, q, [post])))"

definition is_terminal :: "SSEEvent \<Rightarrow> bool" where
  "is_terminal event = (step event \<in> set [JStr ''end'', JStr ''error'', JStr ''timeout''])"

lemma await_resolution_length:
  "await_resolution E st q = Some (reply, st', q', acts) \<Longrightarrow> length q' < length q"
proof (induction q arbitrary: st reply st' q' acts)
  case Nil
  then show ?case by simp
next
  case (Cons i q)
  show ?case
  proof (cases i)
    case (Event e)
    with Cons.prems obtain q1 where "await_resolution E st q = Some (reply, st', q1, acts)"
      and "q' = Event e # q1"
      by (auto split: option.splits)
    with Cons.IH show ?thesis by fastforce
  next
    case (External x)
    obtain r st1 a1 where x: "external E x st = (r, st1, a1)"
      by (cases "external E x st")
    show ?thesis
    proof (cases r)
      case None
      with Cons.prems External x obtain a2
        where "await_resolution E st1 q = Some (reply, st', q', a2)"
        by (auto split: option.splits)
      with Cons.IH have "length q' < length q" by blast
      then show ?thesis by simp
    next
      case (Some v)
      with Cons.prems External x show ?thesis by simp
    qed
  qed
qed

lemma handleEvent_length:
  "handleEvent E event st q = (r, st', q', acts) \<Longrightarrow> length q' \<le> length q"
  by (auto simp: handleEvent_def waitForHumanReply_def Let_def
      split: if_splits option.splits prod.splits dest: await_resolution_length)

text \<open>
  The loop of \<open>startTask\<close> over the timeline. \<open>fin\<close> is how the stream ends: by
  \<open>done\<close>, or by throwing. A failure of the stream that comes earlier is a timeline cut
  there.
\<close>

function consume ::
  "'w env \<Rightarrow> 'w orchestrator \<Rightarrow> item list \<Rightarrow> string option \<Rightarrow>
     outcome \<times> 'w orchestrator \<times> action list" where
  "consume E st [] fin = ((case fin of None \<Rightarrow> Normal | Some m \<Rightarrow> Threw m), st, [])"
| "consume E st (External x # q) fin =
     (case external E x st of
        (r, st1, acts) \<Rightarrow>
          (case consume E st1 q fin of (out, st2, acts') \<Rightarrow> (out, st2, acts @ acts')))"
| "consume E st (Event event # q) fin =
     (if aborted st then (Normal, st, [])
      else
        (case handleEvent E event st q of
           (Normal, st1, q1, acts) \<Rightarrow>
             if is_terminal event then (Normal, st1, acts)
             else (case consume E st1 q1 fin of
                     (out, st2, acts') \<Rightarrow> (out, st2, acts @ acts'))
         | (Threw m, st1, q1, acts) \<Rightarrow> (Threw m, st1, acts)
         | (Pending, st1, q1, acts) \<Rightarrow> (Pending, st1, acts)))"
  by pat_completeness auto
termination
proof (relation "measure (\<lambda>(E, st, q, fin). length q)", goal_cases)
  case 1
  show ?case by simp
next
  case (2 E st x q fin)
  show ?case by simp
next
  case (3 E st event q fin x y xa ya xb yb)
  then have "handleEvent E event st q = (Normal, xa, xb, yb)" by simp
  then have "length xb \<le> length q" by (rule handleEvent_length)
  then show ?case by simp
qed

text \<open>
  The lines of \<open>startTask\<close> between the assignment of the identifiers and the \<open>try\<close>:
  the base URL is read, the API key is awaited and the client is constructed. The read
  of the key can reject and the constructor can throw.
\<close>

definition connect :: "'w env \<Rightarrow> string + EigentSSEClient" where
  "connect E =
     (let url = getAscendeBackendUrl (configuredUrl E) in
      case secretApiKey E of
        Inl m \<Rightarrow> Inl m
      | Inr key \<Rightarrow> new_EigentSSEClient url key)"

text \<open>
  \<open>startTask\<close>. \<open>built\<close> is what \<open>buildChatParams\<close> resolves to; when it rejects
  (\<open>Inl\<close>), \<open>startTask\<close> rejects before the identifiers are set. A failure of
  \<open>connect\<close> comes behind their assignment and before the \<open>try\<close>: \<open>startTask\<close>
  rejects, nothing is signalled and the \<open>finally\<close> does not run. The timeline holds the
  events of \<open>startChat\<close> for these parameters. The listeners of the signals do not
  throw.
\<close>

datatype settled = Resolved | Rejected string | Unsettled

definition startTask ::
  "'w env \<Rightarrow> string + ChatParams \<Rightarrow> 'w orchestrator \<Rightarrow> item list \<Rightarrow> string option \<Rightarrow>
     settled \<times> 'w orchestrator \<times> action list" where
  "startTask E built st0 q fin =
     (let st = st0\<lparr>aborted := False\<rparr> in
      case built of
        Inl m \<Rightarrow> (Rejected m, st, [])
      | Inr params \<Rightarrow>
          (let st1 = st\<lparr>projectId := project_id params, taskId := task_id params\<rparr> in
           case connect E of
             Inl m \<Rightarrow> (Rejected m, st1, [])
           | Inr c \<Rightarrow>
               (case consume E (st1\<lparr>client := Some c\<rparr>) q fin of
                  (Normal, st2, acts) \<Rightarrow>
                    (Resolved, st2\<lparr>projectId := [], taskId := []\<rparr>,
                     Emit TaskStarted # acts @ [Emit (TaskCompleted (taskId st2))])
                | (Threw m, st2, acts) \<Rightarrow>
                    (Resolved, st2\<lparr>projectId := [], taskId := []\<rparr>,
                     Emit TaskStarted # acts
                     @ (if \<not> aborted st2
                        then [PostMessage (JStr ''error'') (JObj [(''message'', JStr m)])]
                        else [])
                     @ [Emit TaskAborted])
                | (Pending, st2, acts) \<Rightarrow> (Unsettled, st2, Emit TaskStarted # acts))))"

section \<open>Example collaborators\<close>

text \<open>
  A backend that accepts every control call, tools that succeed without touching the
  machine, and a session: the concrete collaborators of the examples below.
\<close>

definition accepting_env :: "unit env" where
  "accepting_env =
     \<lparr>fetch = (\<lambda>r. Inr \<lparr>res_ok = True, res_status = 200, res_statusText = ''OK'',
                           res_text = [], res_body = None\<rparr>),
      JSON_stringify = (\<lambda>j. []),
      configuredUrl = None,
      secretApiKey = Inr None,
      tool_executeFileWrite = (\<lambda>d w. (result_ok ''written'', w)),
      tool_executeReadFile = (\<lambda>d w. (result_ok ''content'', w)),
      tool_executeSearchReplace = (\<lambda>d w. (result_ok ''replaced'', w)),
      tool_executeListFiles = (\<lambda>d w. (result_ok ''files'', w)),
      tool_executeTerminal = (\<lambda>d w. (result_ok ''output'', w))\<rparr>"

text \<open>The same collaborators with a secret store that cannot be read.\<close>

definition locked_env :: "unit env" where
  "locked_env = accepting_env\<lparr>secretApiKey := Inl ''secret store is locked''\<rparr>"

definition idle :: "unit orchestrator" where
  "idle = \<lparr>client = None, projectId = [], taskId = [], aborted = False,
           pendingHumanReply = None, world = ()\<rparr>"

definition params_p1 :: ChatParams where
  "params_p1 =
     buildEigentChatParams ''p1'' ''gpt-4'' ''/home''
       \<lparr>cfg_apiProvider = Some ''openai'', cfg_openRouterApiKey = None,
        cfg_openAiApiKey = Some ''sk-x'', cfg_apiKey = None, cfg_openRouterBaseUrl = None,
        cfg_openAiBaseUrl = None\<rparr>
       ''hello'' None (Some ''/ws'')"

definition running :: "unit orchestrator" where
  "running = idle\<lparr>client := Some (new_client ''http://localhost:8000'' None),
                  projectId := ''p1'', taskId := ''p1''\<rparr>"

definition ev :: "string \<Rightarrow> (string \<times> json) list \<Rightarrow> SSEEvent" where
  "ev s kvs = \<lparr>step = JStr s, data = JObj kvs\<rparr>"

lemma running_fields [simp]:
  "client running = Some (new_client ''http://localhost:8000'' None)"
  "projectId running = ''p1''" "taskId running = ''p1''" "aborted running = False"
  "pendingHumanReply running = None"
  by (simp_all add: running_def idle_def)

text \<open>
  A platform over a table of files in memory. The path \<open>/\<close> cannot be written; the
  workspace folder is \<open>/ws\<close> when the table is not empty; the search gives the files of
  the table and rejects the pattern \<open>**[\<close>; only \<open>/ws\<close> can be walked. The command
  \<open>echo hi\<close> prints \<open>hi\<close>, \<open>exit 3\<close> fails without any output, and no other command
  can be spawned.
\<close>

definition mem_platform :: "((string \<times> byte list) list) platform" where
  "mem_platform =
     \<lparr>path_isAbsolute = (\<lambda>p. p \<noteq> [] \<and> hd p = CHR ''/''),
      path_resolve = (\<lambda>ws p. ws @ ''/'' @ p),
      path_relative = (\<lambda>ws p. drop (length ws + 1) p),
      text_encode = map (\<lambda>c. of_nat (of_char c)),
      text_decode = map (\<lambda>b. char_of (unat b)),
      fs_readFile = (\<lambda>w p. case map_of w p of None \<Rightarrow> Inl ''FileNotFound'' | Some b \<Rightarrow> Inr b),
      fs_writeFile = (\<lambda>w p b. if p = ''/'' then (Some ''NoPermissions'', w)
                               else (None, (p, b) # w)),
      workspaceFolder = (\<lambda>w. if w = [] then None else Some ''/ws''),
      findFiles = (\<lambda>w f pat n. if pat = ''**['' then Inl ''Invalid pattern''
                                 else Inr (take n (map fst w))),
      listFiles = (\<lambda>w d r n. if d = ''/ws'' then Inr (take n (map fst w), False)
                               else Inl ''ENOTDIR''),
      spawn = (\<lambda>w c d.
        if c = ''echo hi'' then
          (\<lparr>p_failed = False, p_exitCode = 0, p_all = Some ''hi'', p_stdout = Some ''hi'',
            p_stderr = Some [], p_message = []\<rparr>, w)
        else if c = ''exit 3'' then
          (\<lparr>p_failed = True, p_exitCode = 3, p_all = Some [], p_stdout = Some [],
            p_stderr = Some [], p_message = ''Command failed with exit code 3: exit 3''\<rparr>, w)
        else
          (\<lparr>p_failed = True, p_exitCode = 127, p_all = None, p_stdout = None,
            p_stderr = None, p_message = ''spawn failed''\<rparr>, w))\<rparr>"

text \<open>A workspace with the one file \<open>f\<close> of content \<open>abc\<close>, and a request on it.\<close>

definition file_abc :: "(string \<times> byte list) list" where
  "file_abc = [(''/ws/f'', [97, 98, 99])]"

definition replace_in_f :: "string \<Rightarrow> string \<Rightarrow> ExecuteSearchReplaceData" where
  "replace_in_f old new =
     \<lparr>sr_request_id = ''r1'', sr_path = ''f'', sr_old_string = old, sr_new_string = new\<rparr>"

text \<open>A stream that goes on behind its \<open>end\<close> event.\<close>

definition stream_past_end :: "item list" where
  "stream_past_end =
     [Event (ev ''confirmed'' []),
      Event (ev ''execute_read_file'' [(''request_id'', JStr ''r2''), (''path'', JStr ''x.txt'')]),
      Event (ev ''end'' []),
      Event (ev ''execute_terminal'' [(''request_id'', JStr ''r3''), (''command'', JStr ''ls'')]),
      Event (ev ''notice'' [])]"


section \<open>Notions used by the properties\<close>

text \<open>
  The events forwarded to the webview, read off the observations; the events of a
  timeline; the events up to and including the first terminal one; the terminal signals
  among the observations.
\<close>

fun forwarded :: "action list \<Rightarrow> SSEEvent list" where
  "forwarded [] = []"
| "forwarded (PostMessage s d # acts) = \<lparr>step = s, data = d\<rparr> # forwarded acts"
| "forwarded (a # acts) = forwarded acts"

fun events_of :: "item list \<Rightarrow> SSEEvent list" where
  "events_of [] = []"
| "events_of (Event e # q) = e # events_of q"
| "events_of (External x # q) = events_of q"

fun up_to_terminal :: "SSEEvent list \<Rightarrow> SSEEvent list" where
  "up_to_terminal [] = []"
| "up_to_terminal (e # es) = (if is_terminal e then [e] else e # up_to_terminal es)"

fun terminal_signals :: "action list \<Rightarrow> signal list" where
  "terminal_signals [] = []"
| "terminal_signals (Emit TaskStarted # acts) = terminal_signals acts"
| "terminal_signals (Emit s # acts) = s # terminal_signals acts"
| "terminal_signals (a # acts) = terminal_signals acts"

text \<open>
  The fields of the orchestrator when the loop of \<open>startTask\<close> starts, with the client
  that was constructed.
\<close>

definition session ::
  "EigentSSEClient \<Rightarrow> ChatParams \<Rightarrow> 'w orchestrator \<Rightarrow> 'w orchestrator" where
  "session c params st0 =
     st0\<lparr>aborted := False, projectId := project_id params, taskId := task_id params,
         client := Some c\<rparr>"

text \<open>
  A timeline without the events of the stream that come behind its first terminal event;
  the calls of the user interface stay.
\<close>

fun externals_only :: "item list \<Rightarrow> item list" where
  "externals_only [] = []"
| "externals_only (Event e # q) = externals_only q"
| "externals_only (External x # q) = External x # externals_only q"

fun cut_after_terminal :: "item list \<Rightarrow> item list" where
  "cut_after_terminal [] = []"
| "cut_after_terminal (External x # q) = External x # cut_after_terminal q"
| "cut_after_terminal (Event e # q) =
     (if is_terminal e then Event e # externals_only q else Event e # cut_after_terminal q)"


text \<open>
  The replacement of every occurrence, as the specification words it: the text is scanned
  from the left, an occurrence of \<open>old\<close> is replaced by \<open>new\<close> and the scan goes on
  behind it. The empty string occurs before every character and at the end, as for
  \<open>String.prototype.replaceAll\<close>.
\<close>

function replace_all :: "string \<Rightarrow> string \<Rightarrow> string \<Rightarrow> string" where
  "replace_all old new [] = (if old = [] then new else [])"
| "replace_all old new (c # cs) =
     (if old = [] then new @ c # replace_all old new cs
      else if prefix old (c # cs) then new @ replace_all old new (drop (length old) (c # cs))
      else c # replace_all old new cs)"
  by pat_completeness auto
termination
  by (relation "measure (\<lambda>(old, new, s). length s)") auto

text \<open>
  A well-formed result: a success carries a content and no error, a failure carries a
  message in its error field.
\<close>

definition well_formed :: "ToolResult \<Rightarrow> bool" where
  "well_formed r =
     (if success r then content r \<noteq> None \<and> error r = None else error r \<noteq> None)"





section \<open>Properties of the stream client\<close>

subsection \<open>Splitting is independent of the reads\<close>

lemma find_sep_append:
  assumes "find_sep sep s = Some (b, a)"
  shows "find_sep sep (s @ t) = Some (b, a @ t)"
  using assms
proof (induction s arbitrary: b)
  case Nil
  then show ?case by simp
next
  case (Cons c cs)
  show ?case
  proof (cases "prefix sep (c # cs)")
    case True
    then have p: "prefix sep (c # cs @ t)" by (metis append_Cons prefix_prefix)
    from True have "length sep \<le> length (c # cs)" by (rule prefix_length_le)
    then have "drop (length sep) ((c # cs) @ t) = drop (length sep) (c # cs) @ t"
      by (simp only: drop_append) simp
    with p True Cons.prems show ?thesis by simp
  next
    case False
    with Cons.prems obtain b' where f: "find_sep sep cs = Some (b', a)" and b: "b = c # b'"
      by auto
    from find_sep_Some [OF f] have "length sep \<le> length cs" by simp
    with False have "\<not> prefix sep (c # cs @ t)"
      by (metis append_Cons prefix_length_prefix prefix_order.eq_iff prefix_prefix length_Cons le_SucI prefixI append.right_neutral)
    with f b Cons.IH show ?thesis by simp
  qed
qed

lemma split_on_not_Nil: "split_on sep s \<noteq> []"
  by (subst split_on.simps) (auto split: option.splits)

lemma split_on_append:
  "sep \<noteq> [] \<Longrightarrow>
   split_on sep (s @ t) = butlast (split_on sep s) @ split_on sep (last (split_on sep s) @ t)"
proof (induction sep s rule: split_on.induct)
  case (1 sep s)
  show ?case
  proof (cases "find_sep sep s")
    case None
    with 1 have "split_on sep s = [s]" by (subst split_on.simps) simp
    then show ?thesis by simp
  next
    case (Some p)
    obtain b a where p: "p = (b, a)" by (cases p)
    with Some have f: "find_sep sep s = Some (b, a)" by simp
    from 1 f have s: "split_on sep s = b # split_on sep a" by (subst split_on.simps) simp
    from 1 find_sep_append [OF f] have st: "split_on sep (s @ t) = b # split_on sep (a @ t)"
      by (subst split_on.simps) simp
    from 1 f have IH: "split_on sep (a @ t) = butlast (split_on sep a) @ split_on sep (last (split_on sep a) @ t)"
      by simp
    show ?thesis using s st IH split_on_not_Nil [of sep a] by simp
  qed
qed

lemma find_sep_last_split_on:
  "sep \<noteq> [] \<Longrightarrow> find_sep sep (last (split_on sep s)) = None"
proof (induction sep s rule: split_on.induct)
  case (1 sep s)
  show ?case
  proof (cases "find_sep sep s")
    case None
    with 1 have "split_on sep s = [s]" by (subst split_on.simps) simp
    with None show ?thesis by simp
  next
    case (Some p)
    obtain b a where p: "p = (b, a)" by (cases p)
    with Some have f: "find_sep sep s = Some (b, a)" by simp
    from 1 f have s: "split_on sep s = b # split_on sep a" by (subst split_on.simps) simp
    from 1 f have "find_sep sep (last (split_on sep a)) = None" by simp
    with s split_on_not_Nil [of sep a] show ?thesis by simp
  qed
qed

lemma split_on_no_sep: "find_sep sep s = None \<Longrightarrow> split_on sep s = [s]"
  by (subst split_on.simps) simp

lemma decode_chunk_append:
  "decode_chunk dec d (xs @ ys) =
     (case decode_chunk dec d xs of (d1, t1) \<Rightarrow>
        (case decode_chunk dec d1 ys of (d2, t2) \<Rightarrow> (d2, t1 @ t2)))"
  by (induction xs arbitrary: d) (auto split: prod.splits)

lemma trim_Nil_all_space: "trim s = [] \<Longrightarrow> \<forall>c\<in>set s. is_js_space c"
proof -
  assume t: "trim s = []"
  have "dropWhile is_js_space s = []"
  proof (rule ccontr)
    assume ne: "dropWhile is_js_space s \<noteq> []"
    then have "\<not> is_js_space (hd (dropWhile is_js_space s))" by (rule hd_dropWhile)
    moreover have "last (rev (dropWhile is_js_space s)) = hd (dropWhile is_js_space s)"
      using ne by (simp add: last_rev)
    ultimately have "dropWhile is_js_space (rev (dropWhile is_js_space s)) \<noteq> []"
      using ne by (metis dropWhile_eq_Nil_conv last_in_set rev_is_Nil_conv)
    with t show False by (simp add: trim_def)
  qed
  then show ?thesis by (simp add: dropWhile_eq_Nil_conv)
qed

lemma match_data_all_space:
  "\<forall>c\<in>set s. is_js_space c \<Longrightarrow> match_data b s = None"
proof (induction s arbitrary: b)
  case Nil
  then show ?case by simp
next
  case (Cons c cs)
  then have "is_js_space c" by simp
  then have "c \<noteq> CHR ''d''" by (auto simp: is_js_space_def)
  with Cons show ?case by auto
qed

lemma parseSSEChunk_blank: "trim s = [] \<Longrightarrow> parseSSEChunk JP s = None"
  by (simp add: parseSSEChunk_def match_data_all_space trim_Nil_all_space)

lemma parse_final_eq: "parse_final JP s = List.map_filter (parseSSEChunk JP) [s]"
  by (auto simp: parse_final_def List.map_filter_simps parseSSEChunk_blank split: option.splits)

lemma delimiter_not_Nil: "delimiter \<noteq> []"
  by (simp add: delimiter_def)

lemma js_split_delimiter: "js_split delimiter s = split_on delimiter s"
  by (simp add: js_split_def delimiter_not_Nil)

lemma map_filter_append: "List.map_filter f (xs @ ys) = List.map_filter f xs @ List.map_filter f ys"
  by (simp add: List.map_filter_def)

lemma read_loop_frames:
  "find_sep delimiter buffer = None \<Longrightarrow>
   read_loop JP dec d buffer chunks fin =
     (let lines = split_on delimiter (buffer @ snd (decode_chunk dec d (concat chunks)))
      in (List.map_filter (parseSSEChunk JP) (butlast lines)
            @ (case fin of None \<Rightarrow> parse_final JP (last lines) | Some m \<Rightarrow> []), fin))"
proof (induction chunks arbitrary: d buffer)
  case Nil
  then show ?case
    by (simp add: split_on_no_sep List.map_filter_simps split: option.splits)
next
  case (Cons v vs)
  obtain d1 t where dv: "decode_chunk dec d v = (d1, t)" by (cases "decode_chunk dec d v")
  obtain d2 t2 where dvs: "decode_chunk dec d1 (concat vs) = (d2, t2)"
    by (cases "decode_chunk dec d1 (concat vs)")
  let ?l1 = "split_on delimiter (buffer @ t)"
  have ne: "?l1 \<noteq> []" by (rule split_on_not_Nil)
  have nosep: "find_sep delimiter (last ?l1) = None"
    by (rule find_sep_last_split_on [OF delimiter_not_Nil])
  have whole: "decode_chunk dec d (concat (v # vs)) = (d2, t @ t2)"
    by (simp add: decode_chunk_append dv dvs)
  have sp: "split_on delimiter (buffer @ t @ t2) = butlast ?l1 @ split_on delimiter (last ?l1 @ t2)"
    using split_on_append [OF delimiter_not_Nil, of "buffer @ t" t2] by simp
  let ?l2 = "split_on delimiter (last ?l1 @ t2)"
  have ne2: "?l2 \<noteq> []" by (rule split_on_not_Nil)
  have IH: "read_loop JP dec d1 (last ?l1) vs fin =
     (List.map_filter (parseSSEChunk JP) (butlast ?l2)
        @ (case fin of None \<Rightarrow> parse_final JP (last ?l2) | Some m \<Rightarrow> []), fin)"
    using Cons.IH [OF nosep, of d1] by (simp add: dvs Let_def)
  show ?case
    using ne ne2
    by (simp add: dv js_split_delimiter Let_def IH whole sp butlast_append last_append map_filter_append
        del: concat.simps split: option.splits)
qed

lemma find_sep_Nil: "find_sep sep [] = None" by simp

lemma read_loop_one_read:
  "read_loop JP dec d [] chunks fin = read_loop JP dec d [] [concat chunks] fin"
  by (simp only: read_loop_frames [OF find_sep_Nil]) simp

text \<open>
  Claim C1 (chunk-boundary invariance). Whatever the partition of the response body into
  reads, also in the middle of a delimiter or of a JSON text, \<open>startChat\<close> yields the
  events, and the error behind them, of the same bytes delivered in one read. The events
  of a stream that ends by \<open>done\<close> are the decoded pieces of the whole text split on the
  blank line, in order: the complete frames, and the remainder as the last frame.
\<close>

theorem chunk_boundary_invariance:
  "startChat S JP dec d0 c params (Inr (res\<lparr>res_body := Some (chunks, fin)\<rparr>))
     = startChat S JP dec d0 c params (Inr (res\<lparr>res_body := Some ([concat chunks], fin)\<rparr>))
   \<and> read_loop JP dec d0 [] chunks None
     = (List.map_filter (parseSSEChunk JP)
          (js_split delimiter (snd (decode_chunk dec d0 (concat chunks)))), None)"
proof
  show "startChat S JP dec d0 c params (Inr (res\<lparr>res_body := Some (chunks, fin)\<rparr>))
     = startChat S JP dec d0 c params (Inr (res\<lparr>res_body := Some ([concat chunks], fin)\<rparr>))"
    using read_loop_one_read [of JP dec d0 chunks fin] by (simp add: startChat_def)
next
  let ?l = "split_on delimiter (snd (decode_chunk dec d0 (concat chunks)))"
  have "?l \<noteq> []" by (rule split_on_not_Nil)
  then have "?l = butlast ?l @ [last ?l]" by simp
  then have "List.map_filter (parseSSEChunk JP) ?l
     = List.map_filter (parseSSEChunk JP) (butlast ?l) @ parse_final JP (last ?l)"
    by (metis map_filter_append parse_final_eq)
  then show "read_loop JP dec d0 [] chunks None
     = (List.map_filter (parseSSEChunk JP)
          (js_split delimiter (snd (decode_chunk dec d0 (concat chunks)))), None)"
    by (simp add: read_loop_frames [OF find_sep_Nil] js_split_delimiter Let_def)
qed

section \<open>Properties of the orchestrator\<close>

subsection \<open>What the pieces of a run preserve\<close>

lemma forwarded_append: "forwarded (xs @ ys) = forwarded xs @ forwarded ys"
  by (induction xs rule: forwarded.induct) auto

lemma terminal_signals_append:
  "terminal_signals (xs @ ys) = terminal_signals xs @ terminal_signals ys"
  by (induction xs rule: terminal_signals.induct) auto

lemma external_cases:
  "external E x st = (r, st', acts) \<Longrightarrow>
   forwarded acts = [] \<and> taskId st' = taskId st \<and> projectId st' = projectId st
   \<and> client st' = client st \<and> world st' = world st
   \<and> (aborted st \<longrightarrow> aborted st')
   \<and> (r = None \<longrightarrow> pendingHumanReply st' = pendingHumanReply st)
   \<and> (pendingHumanReply st \<noteq> None \<longrightarrow> r \<noteq> None)
   \<and> (x \<noteq> Abort \<longrightarrow> acts = [] \<and> aborted st' = aborted st)
   \<and> (x = Abort \<longrightarrow> aborted st')"
  by (cases x) (auto simp: abortTask_def submitHumanReply_def Let_def split: option.splits)

lemma await_resolution_props:
  "await_resolution E st q = Some (reply, st', q', acts) \<Longrightarrow>
   forwarded acts = [] \<and> events_of q' = events_of q \<and> taskId st' = taskId st
   \<and> (aborted st \<longrightarrow> aborted st')
   \<and> (External Abort \<notin> set q \<longrightarrow> acts = [] \<and> aborted st' = aborted st \<and> External Abort \<notin> set q')"
proof (induction q arbitrary: st reply st' q' acts)
  case Nil
  then show ?case by simp
next
  case (Cons i q)
  show ?case
  proof (cases i)
    case (Event e)
    with Cons.prems obtain q1 where a: "await_resolution E st q = Some (reply, st', q1, acts)"
      and q': "q' = Event e # q1"
      by (auto split: option.splits)
    from Cons.IH [OF a] q' Event show ?thesis by simp
  next
    case (External x)
    obtain r st1 a1 where x: "external E x st = (r, st1, a1)"
      by (cases "external E x st")
    note ex = external_cases [OF x]
    show ?thesis
    proof (cases r)
      case None
      with Cons.prems External x obtain a2
        where a: "await_resolution E st1 q = Some (reply, st', q', a2)" and acts: "acts = a1 @ a2"
        by (auto split: option.splits)
      from Cons.IH [OF a] ex acts External show ?thesis
        by (auto simp: forwarded_append)
    next
      case (Some v)
      with Cons.prems External x have "st' = st1" "q' = q" "acts = a1" by auto
      with ex External show ?thesis by auto
    qed
  qed
qed

lemma executeAndPostResult_props:
  "executeAndPostResult E n d st = (r, st', acts) \<Longrightarrow>
   forwarded acts = [] \<and> terminal_signals acts = [] \<and> taskId st' = taskId st
   \<and> aborted st' = aborted st \<and> r \<noteq> Pending
   \<and> pendingHumanReply st' = pendingHumanReply st"
  by (auto simp: executeAndPostResult_def Let_def split: if_splits option.splits prod.splits)

lemma SSEEvent_eta: "\<lparr>step = step e, data = data e\<rparr> = e"
  by simp

lemma handleEvent_props:
  assumes "handleEvent E e st q = (r, st', q', acts)"
  shows "forwarded acts = [e]" and "events_of q' = events_of q" and "taskId st' = taskId st"
    and "aborted st \<Longrightarrow> aborted st'"
    and "External Abort \<notin> set q \<Longrightarrow>
           terminal_signals acts = [] \<and> aborted st' = aborted st \<and> External Abort \<notin> set q'"
    and "r = Pending \<Longrightarrow> pendingHumanReply st' \<noteq> None"
    and "step e \<noteq> JStr ''ask'' \<Longrightarrow> r \<noteq> Pending \<and> q' = q"
proof -
  show "forwarded acts = [e]"
    using assms
    by (auto simp: handleEvent_def waitForHumanReply_def Let_def forwarded_append
        split: if_splits option.splits prod.splits
        dest: await_resolution_props executeAndPostResult_props)
  show "events_of q' = events_of q"
    using assms
    by (auto simp: handleEvent_def waitForHumanReply_def Let_def
        split: if_splits option.splits prod.splits dest: await_resolution_props)
  show "taskId st' = taskId st"
    using assms
    by (auto simp: handleEvent_def waitForHumanReply_def Let_def
        split: if_splits option.splits prod.splits
        dest: await_resolution_props executeAndPostResult_props)
  show "aborted st \<Longrightarrow> aborted st'"
    using assms
    by (auto simp: handleEvent_def waitForHumanReply_def Let_def
        split: if_splits option.splits prod.splits
        dest: await_resolution_props executeAndPostResult_props)
  show "External Abort \<notin> set q \<Longrightarrow>
           terminal_signals acts = [] \<and> aborted st' = aborted st \<and> External Abort \<notin> set q'"
    using assms
    by (auto simp: handleEvent_def waitForHumanReply_def Let_def terminal_signals_append
        split: if_splits option.splits prod.splits
        dest: await_resolution_props executeAndPostResult_props)
  show "r = Pending \<Longrightarrow> pendingHumanReply st' \<noteq> None"
    using assms
    by (auto simp: handleEvent_def waitForHumanReply_def Let_def
        split: if_splits option.splits prod.splits
        dest: executeAndPostResult_props)
  show "step e \<noteq> JStr ''ask'' \<Longrightarrow> r \<noteq> Pending \<and> q' = q"
    using assms
    by (auto simp: handleEvent_def Let_def
        split: if_splits option.splits prod.splits
        dest: executeAndPostResult_props)
qed

lemma consume_forwarded_prefix:
  "consume E st q fin = (out, st', acts) \<Longrightarrow>
   prefix (forwarded acts) (up_to_terminal (events_of q))"
proof (induction E st q fin arbitrary: out st' acts rule: consume.induct)
  case (1 E st fin)
  then show ?case by simp
next
  case (2 E st x q fin)
  obtain r st1 a1 where x: "external E x st = (r, st1, a1)" by (cases "external E x st")
  obtain o2 st2 a2 where c: "consume E st1 q fin = (o2, st2, a2)"
    by (cases "consume E st1 q fin")
  from "2.prems" x c have acts: "acts = a1 @ a2" by simp
  from "2.IH" [OF x [symmetric] refl c] external_cases [OF x] acts show ?case
    by (simp add: forwarded_append)
next
  case (3 E st event q fin)
  show ?case
  proof (cases "aborted st")
    case True
    with "3.prems" show ?thesis by simp
  next
    case False
    obtain r st1 q1 a1 where h: "handleEvent E event st q = (r, st1, q1, a1)"
      by (cases "handleEvent E event st q")
    note hp = handleEvent_props(1,2) [OF h]
    show ?thesis
    proof (cases "r = Normal \<and> \<not> is_terminal event")
      case True
      obtain o2 st2 a2 where c: "consume E st1 q1 fin = (o2, st2, a2)"
        by (cases "consume E st1 q1 fin")
      from True h have h': "(Normal, st1, q1, a1) = handleEvent E event st q" by simp
      from "3.IH" [OF False h' refl refl refl _ c] True
      have "prefix (forwarded a2) (up_to_terminal (events_of q1))" by simp
      moreover from "3.prems" False h True c have "acts = a1 @ a2" by simp
      ultimately show ?thesis using hp True by (simp add: forwarded_append)
    next
      case False
      with "3.prems" \<open>\<not> aborted st\<close> h have "acts = a1"
        by (cases r) (auto split: if_splits)
      with hp show ?thesis by simp
    qed
  qed
qed

lemma consume_forwarded_all:
  "consume E st q fin = (Normal, st', acts) \<Longrightarrow> \<not> aborted st' \<Longrightarrow>
   forwarded acts = up_to_terminal (events_of q)"
proof (induction E st q fin arbitrary: st' acts rule: consume.induct)
  case (1 E st fin)
  then show ?case by simp
next
  case (2 E st x q fin)
  obtain r st1 a1 where x: "external E x st = (r, st1, a1)" by (cases "external E x st")
  obtain o2 st2 a2 where c: "consume E st1 q fin = (o2, st2, a2)"
    by (cases "consume E st1 q fin")
  from "2.prems" x c have acts: "acts = a1 @ a2" and o2: "o2 = Normal" and st2: "st2 = st'"
    by simp_all
  from "2.IH" [OF x [symmetric] refl] c o2 st2 "2.prems"(2) external_cases [OF x] acts
  show ?case by (simp add: forwarded_append)
next
  case (3 E st event q fin)
  show ?case
  proof (cases "aborted st")
    case True
    with "3.prems" show ?thesis by simp
  next
    case False
    obtain r st1 q1 a1 where h: "handleEvent E event st q = (r, st1, q1, a1)"
      by (cases "handleEvent E event st q")
    note hp = handleEvent_props(1,2) [OF h]
    from "3.prems"(1) False h have r: "r = Normal" by (cases r) (auto split: if_splits)
    show ?thesis
    proof (cases "is_terminal event")
      case True
      with "3.prems" False h r have "acts = a1" by simp
      with hp True show ?thesis by simp
    next
      case nt: False
      obtain o2 st2 a2 where c: "consume E st1 q1 fin = (o2, st2, a2)"
        by (cases "consume E st1 q1 fin")
      from r h have h': "(Normal, st1, q1, a1) = handleEvent E event st q" by simp
      from "3.prems" False h r nt c have e: "acts = a1 @ a2" "o2 = Normal" "st2 = st'"
        by simp_all
      from "3.IH" [OF False h' refl refl refl nt] c e "3.prems"(2)
      have "forwarded a2 = up_to_terminal (events_of q1)" by simp
      with hp nt e show ?thesis by (simp add: forwarded_append)
    qed
  qed
qed

lemma consume_Pending:
  "consume E st q fin = (Pending, st', acts) \<Longrightarrow> pendingHumanReply st' \<noteq> None"
proof (induction E st q fin arbitrary: st' acts rule: consume.induct)
  case (1 E st fin)
  then show ?case by (simp split: option.splits)
next
  case (2 E st x q fin)
  obtain r st1 a1 where x: "external E x st = (r, st1, a1)" by (cases "external E x st")
  obtain o2 st2 a2 where c: "consume E st1 q fin = (o2, st2, a2)"
    by (cases "consume E st1 q fin")
  from "2.prems" x c have "o2 = Pending" "st2 = st'" by simp_all
  with "2.IH" [OF x [symmetric] refl] c show ?case by simp
next
  case (3 E st event q fin)
  show ?case
  proof (cases "aborted st")
    case True
    with "3.prems" show ?thesis by simp
  next
    case False
    obtain r st1 q1 a1 where h: "handleEvent E event st q = (r, st1, q1, a1)"
      by (cases "handleEvent E event st q")
    show ?thesis
    proof (cases r)
      case Normal
      with "3.prems" False h have nt: "\<not> is_terminal event" by (auto split: if_splits)
      obtain o2 st2 a2 where c: "consume E st1 q1 fin = (o2, st2, a2)"
        by (cases "consume E st1 q1 fin")
      from Normal h have h': "(Normal, st1, q1, a1) = handleEvent E event st q" by simp
      from "3.prems" False h Normal nt c have "o2 = Pending" "st2 = st'" by simp_all
      with "3.IH" [OF False h' refl refl refl nt] c show ?thesis by simp
    next
      case (Threw m)
      with "3.prems" False h show ?thesis by simp
    next
      case Pending
      with "3.prems" False h have "st' = st1" by simp
      with handleEvent_props(6) [OF h] Pending show ?thesis by simp
    qed
  qed
qed

lemma consume_no_ask:
  "\<forall>e. Event e \<in> set q \<longrightarrow> step e \<noteq> JStr ''ask'' \<Longrightarrow> fst (consume E st q fin) \<noteq> Pending"
proof (induction E st q fin rule: consume.induct)
  case (1 E st fin)
  then show ?case by (simp split: option.splits)
next
  case (2 E st x q fin)
  obtain r st1 a1 where x: "external E x st = (r, st1, a1)" by (cases "external E x st")
  from "2.IH" [OF x [symmetric] refl] "2.prems" x show ?case
    by (auto split: prod.splits)
next
  case (3 E st event q fin)
  show ?case
  proof (cases "aborted st")
    case True
    then show ?thesis by simp
  next
    case False
    obtain r st1 q1 a1 where h: "handleEvent E event st q = (r, st1, q1, a1)"
      by (cases "handleEvent E event st q")
    from "3.prems" have na: "step event \<noteq> JStr ''ask''" by simp
    from handleEvent_props(7) [OF h na] have r: "r \<noteq> Pending" and q1: "q1 = q" by simp_all
    show ?thesis
    proof (cases r)
      case Normal
      from Normal h have h': "(Normal, st1, q1, a1) = handleEvent E event st q" by simp
      show ?thesis
      proof (cases "is_terminal event")
        case True
        with False h Normal show ?thesis by simp
      next
        case nt: False
        from "3.IH" [OF False h' refl refl refl nt] "3.prems" q1
        have "fst (consume E st1 q1 fin) \<noteq> Pending" by simp
        with False h Normal nt show ?thesis by (auto split: prod.splits)
      qed
    next
      case (Threw m)
      with False h show ?thesis by simp
    next
      case Pending
      with r show ?thesis by simp
    qed
  qed
qed

lemma consume_no_abort:
  "External Abort \<notin> set q \<Longrightarrow> consume E st q fin = (out, st', acts) \<Longrightarrow>
   terminal_signals acts = [] \<and> aborted st' = aborted st \<and> taskId st' = taskId st"
proof (induction E st q fin arbitrary: out st' acts rule: consume.induct)
  case (1 E st fin)
  then show ?case by simp
next
  case (2 E st x q fin)
  obtain r st1 a1 where x: "external E x st = (r, st1, a1)" by (cases "external E x st")
  obtain o2 st2 a2 where c: "consume E st1 q fin = (o2, st2, a2)"
    by (cases "consume E st1 q fin")
  from "2.prems" have xa: "x \<noteq> Abort" and q: "External Abort \<notin> set q" by auto
  from "2.prems" x c have e: "acts = a1 @ a2" "st2 = st'" by simp_all
  from "2.IH" [OF x [symmetric] refl q c] external_cases [OF x] xa e show ?case
    by (simp add: terminal_signals_append)
next
  case (3 E st event q fin)
  show ?case
  proof (cases "aborted st")
    case True
    with "3.prems" show ?thesis by simp
  next
    case False
    obtain r st1 q1 a1 where h: "handleEvent E event st q = (r, st1, q1, a1)"
      by (cases "handleEvent E event st q")
    from "3.prems" have q: "External Abort \<notin> set q" by simp
    note hp = handleEvent_props(5) [OF h q] handleEvent_props(3) [OF h]
    show ?thesis
    proof (cases "r = Normal \<and> \<not> is_terminal event")
      case True
      obtain o2 st2 a2 where c: "consume E st1 q1 fin = (o2, st2, a2)"
        by (cases "consume E st1 q1 fin")
      from True h have h': "(Normal, st1, q1, a1) = handleEvent E event st q" by simp
      from "3.prems" False h True c have e: "acts = a1 @ a2" "st2 = st'" by simp_all
      from "3.IH" [OF False h' refl refl refl _ _ c] True hp e show ?thesis
        by (simp add: terminal_signals_append)
    next
      case nn: False
      with "3.prems" False h have "acts = a1" "st' = st1"
        by (cases r; auto split: if_splits)+
      with hp show ?thesis by simp
    qed
  qed
qed

lemma await_resolution_externals_only:
  "await_resolution E st (externals_only q) =
     (case await_resolution E st q of
        None \<Rightarrow> None
      | Some (reply, st', q', acts) \<Rightarrow> Some (reply, st', externals_only q', acts))"
proof (induction q arbitrary: st)
  case Nil
  then show ?case by simp
next
  case (Cons i q)
  then show ?case by (cases i) (auto split: option.splits prod.splits)
qed

lemma await_resolution_cut:
  "await_resolution E st (cut_after_terminal q) =
     (case await_resolution E st q of
        None \<Rightarrow> None
      | Some (reply, st', q', acts) \<Rightarrow> Some (reply, st', cut_after_terminal q', acts))"
proof (induction q arbitrary: st)
  case Nil
  then show ?case by simp
next
  case (Cons i q)
  then show ?case
    by (cases i) (auto simp: await_resolution_externals_only split: option.splits prod.splits)
qed

lemma handleEvent_externals_only:
  "handleEvent E e st q = (r, st', q', acts) \<Longrightarrow>
   handleEvent E e st (externals_only q) = (r, st', externals_only q', acts)"
  by (auto simp: handleEvent_def waitForHumanReply_def Let_def await_resolution_externals_only
      split: if_splits option.splits prod.splits)

lemma handleEvent_cut:
  "handleEvent E e st q = (r, st', q', acts) \<Longrightarrow>
   handleEvent E e st (cut_after_terminal q) = (r, st', cut_after_terminal q', acts)"
  by (auto simp: handleEvent_def waitForHumanReply_def Let_def await_resolution_cut
      split: if_splits option.splits prod.splits)

lemma consume_cut:
  "list_ex is_terminal (events_of q) \<Longrightarrow>
   consume E st q fin = consume E st (cut_after_terminal q) fin'"
proof (induction E st q fin rule: consume.induct)
  case (1 E st fin)
  then show ?case by simp
next
  case (2 E st x q fin)
  obtain r st1 a1 where x: "external E x st = (r, st1, a1)" by (cases "external E x st")
  from "2.IH" [OF x [symmetric] refl] "2.prems" x show ?case by simp
next
  case (3 E st event q fin)
  show ?case
  proof (cases "aborted st")
    case True
    then show ?thesis by simp
  next
    case False
    obtain r st1 q1 a1 where h: "handleEvent E event st q = (r, st1, q1, a1)"
      by (cases "handleEvent E event st q")
    show ?thesis
    proof (cases "is_terminal event")
      case True
      with False h handleEvent_externals_only [OF h] show ?thesis
        by (cases r) simp_all
    next
      case nt: False
      note hc = handleEvent_cut [OF h]
      show ?thesis
      proof (cases r)
        case Normal
        from Normal h have h': "(Normal, st1, q1, a1) = handleEvent E event st q" by simp
        from "3.prems" nt handleEvent_props(2) [OF h]
        have "list_ex is_terminal (events_of q1)" by simp
        from "3.IH" [OF False h' refl refl refl nt this]
        have "consume E st1 q1 fin = consume E st1 (cut_after_terminal q1) fin'" .
        with False h hc Normal nt show ?thesis by simp
      next
        case (Threw m)
        with False h hc nt show ?thesis by simp
      next
        case Pending
        with False h hc nt show ?thesis by simp
      qed
    qed
  qed
qed

lemma consume_aborted:
  "aborted st \<Longrightarrow> consume E st q fin = (out, st', acts) \<Longrightarrow>
   out \<noteq> Pending \<and> aborted st'
   \<and> (\<forall>a\<in>set acts. (\<exists>p. a = CallStopChat p) \<or> a = Emit TaskAborted)"
proof (induction E st q fin arbitrary: out st' acts rule: consume.induct)
  case (1 E st fin)
  then show ?case by (auto split: option.splits)
next
  case (2 E st x q fin)
  obtain r st1 a1 where x: "external E x st = (r, st1, a1)" by (cases "external E x st")
  obtain o2 st2 a2 where c: "consume E st1 q fin = (o2, st2, a2)"
    by (cases "consume E st1 q fin")
  from x have a1: "\<forall>a\<in>set a1. (\<exists>p. a = CallStopChat p) \<or> a = Emit TaskAborted"
    by (cases x) (auto simp: abortTask_def submitHumanReply_def Let_def split: option.splits)
  from external_cases [OF x] "2.prems"(1) have "aborted st1" by simp
  from "2.IH" [OF x [symmetric] refl this c] "2.prems"(2) x c a1 show ?case by auto
next
  case (3 E st event q fin)
  then show ?case by simp
qed

lemma await_resolution_Some:
  "pendingHumanReply st \<noteq> None \<Longrightarrow> External x \<in> set q \<Longrightarrow> await_resolution E st q \<noteq> None"
proof (induction q)
  case Nil
  then show ?case by simp
next
  case (Cons i q)
  show ?case
  proof (cases i)
    case (Event e)
    with Cons show ?thesis by (auto split: option.splits)
  next
    case (External y)
    obtain r st1 a1 where y: "external E y st = (r, st1, a1)" by (cases "external E y st")
    from external_cases [OF y] Cons.prems(1) have "r \<noteq> None" by simp
    with External y show ?thesis by auto
  qed
qed

lemma await_resolution_abort:
  "External Abort \<in> set q \<Longrightarrow> pendingHumanReply st \<noteq> None \<Longrightarrow>
   await_resolution E st q = Some (reply, st', q', acts) \<Longrightarrow>
   aborted st' \<or> External Abort \<in> set q'"
proof (induction q arbitrary: q')
  case Nil
  then show ?case by simp
next
  case (Cons i q)
  show ?case
  proof (cases i)
    case (Event e)
    with Cons.prems obtain q1 where a: "await_resolution E st q = Some (reply, st', q1, acts)"
      and q': "q' = Event e # q1"
      by (auto split: option.splits)
    from Cons.prems(1) Event have "External Abort \<in> set q" by simp
    from Cons.IH [OF this Cons.prems(2) a] q' show ?thesis by auto
  next
    case (External y)
    obtain r st1 a1 where y: "external E y st = (r, st1, a1)" by (cases "external E y st")
    from external_cases [OF y] Cons.prems(2) obtain v where r: "r = Some v" by auto
    with Cons.prems(3) External y have e: "st' = st1" "q' = q" by simp_all
    show ?thesis
    proof (cases "y = Abort")
      case True
      with external_cases [OF y] e show ?thesis by simp
    next
      case False
      with Cons.prems(1) External e show ?thesis by auto
    qed
  qed
qed

lemma handleEvent_abort_ahead:
  assumes "handleEvent E e st q = (r, st', q', acts)" and "External Abort \<in> set q"
  shows "r \<noteq> Pending \<and> (aborted st' \<or> External Abort \<in> set q')"
proof (cases "step e = JStr ''ask''")
  case True
  let ?st = "st\<lparr>pendingHumanReply := Some (nullish_or (get_prop (data e) ''agent'') (JStr []))\<rparr>"
  have p: "pendingHumanReply ?st \<noteq> None" by simp
  from await_resolution_Some [OF p assms(2), of E] obtain reply st1 q1 a1
    where a: "await_resolution E ?st q = Some (reply, st1, q1, a1)"
    by (cases "await_resolution E ?st q") auto
  from await_resolution_abort [OF assms(2) p a] have "aborted st1 \<or> External Abort \<in> set q1" .
  with assms(1) True a show ?thesis
    by (auto simp: handleEvent_def waitForHumanReply_def Let_def split: if_splits option.splits)
next
  case False
  from handleEvent_props(7) [OF assms(1) False] assms(2) show ?thesis by simp
qed

lemma consume_abort_ahead:
  "aborted st \<or> External Abort \<in> set q \<Longrightarrow> fst (consume E st q fin) \<noteq> Pending"
proof (induction E st q fin rule: consume.induct)
  case (1 E st fin)
  then show ?case by (simp split: option.splits)
next
  case (2 E st x q fin)
  obtain r st1 a1 where x: "external E x st = (r, st1, a1)" by (cases "external E x st")
  from "2.prems" external_cases [OF x] have "aborted st1 \<or> External Abort \<in> set q"
    by (cases "x = Abort") auto
  from "2.IH" [OF x [symmetric] refl this] x show ?case
    by (auto split: prod.splits)
next
  case (3 E st event q fin)
  show ?case
  proof (cases "aborted st")
    case True
    then show ?thesis by simp
  next
    case False
    obtain r st1 q1 a1 where h: "handleEvent E event st q = (r, st1, q1, a1)"
      by (cases "handleEvent E event st q")
    from "3.prems" False have "External Abort \<in> set q" by simp
    from handleEvent_abort_ahead [OF h this]
    have r: "r \<noteq> Pending" and nx: "aborted st1 \<or> External Abort \<in> set q1" by simp_all
    show ?thesis
    proof (cases r)
      case Normal
      from Normal h have h': "(Normal, st1, q1, a1) = handleEvent E event st q" by simp
      show ?thesis
      proof (cases "is_terminal event")
        case True
        with False h Normal show ?thesis by simp
      next
        case nt: False
        from "3.IH" [OF False h' refl refl refl nt nx]
        have "fst (consume E st1 q1 fin) \<noteq> Pending" .
        with False h Normal nt show ?thesis by (auto split: prod.splits)
      qed
    next
      case (Threw m)
      with False h show ?thesis by simp
    next
      case Pending
      with r show ?thesis by simp
    qed
  qed
qed

lemma startTask_session:
  "connect E = Inr c \<Longrightarrow>
   startTask E (Inr params) st0 q fin =
     (case consume E (session c params st0) q fin of
        (Normal, st2, acts) \<Rightarrow>
          (Resolved, st2\<lparr>projectId := [], taskId := []\<rparr>,
           Emit TaskStarted # acts @ [Emit (TaskCompleted (taskId st2))])
      | (Threw m, st2, acts) \<Rightarrow>
          (Resolved, st2\<lparr>projectId := [], taskId := []\<rparr>,
           Emit TaskStarted # acts
           @ (if \<not> aborted st2
              then [PostMessage (JStr ''error'') (JObj [(''message'', JStr m)])]
              else [])
           @ [Emit TaskAborted])
      | (Pending, st2, acts) \<Rightarrow> (Unsettled, st2, Emit TaskStarted # acts))"
  by (simp add: startTask_def session_def Let_def)

lemma connect_accepting_env:
  "connect accepting_env = Inr (new_client ''http://localhost:8000'' None)"
  by (simp add: connect_def accepting_env_def getAscendeBackendUrl_def new_EigentSSEClient_def)

lemma session_p1:
  "session (new_client ''http://localhost:8000'' None) params_p1 idle = running"
  by (simp add: session_def params_p1_def buildEigentChatParams_def Let_def running_def
      idle_def)


subsection \<open>The signals and the identifiers of a run that starts\<close>

lemma external_signals:
  "external E x st = (r, st', acts) \<Longrightarrow> set (terminal_signals acts) \<subseteq> {TaskAborted}"
  by (cases x)
    (auto simp: abortTask_def submitHumanReply_def Let_def terminal_signals_append
      split: option.splits if_splits)

lemma await_resolution_signals:
  "await_resolution E st q = Some (reply, st', q', acts) \<Longrightarrow>
   set (terminal_signals acts) \<subseteq> {TaskAborted}"
proof (induction q arbitrary: st reply st' q' acts)
  case Nil
  then show ?case by simp
next
  case (Cons i q)
  show ?case
  proof (cases i)
    case (Event e)
    with Cons.prems obtain q1 where "await_resolution E st q = Some (reply, st', q1, acts)"
      by (auto split: option.splits)
    then show ?thesis by (rule Cons.IH)
  next
    case (External x)
    obtain r st1 a1 where x: "external E x st = (r, st1, a1)"
      by (cases "external E x st")
    note s1 = external_signals [OF x]
    show ?thesis
    proof (cases r)
      case None
      with Cons.prems External x obtain a2
        where a: "await_resolution E st1 q = Some (reply, st', q', a2)" and acts: "acts = a1 @ a2"
        by (auto split: option.splits)
      from Cons.IH [OF a] s1 acts show ?thesis by (simp add: terminal_signals_append)
    next
      case (Some v)
      with Cons.prems External x have "acts = a1" by simp
      with s1 show ?thesis by simp
    qed
  qed
qed

lemma await_resolution_signal:
  "await_resolution E st q = Some (reply, st', q', acts) \<Longrightarrow>
   s \<in> set (terminal_signals acts) \<Longrightarrow> s = TaskAborted"
  using await_resolution_signals by blast

lemma handleEvent_signals:
  "handleEvent E e st q = (r, st', q', acts) \<Longrightarrow>
   set (terminal_signals acts) \<subseteq> {TaskAborted}"
  by (auto simp: handleEvent_def waitForHumanReply_def Let_def terminal_signals_append
      split: if_splits option.splits prod.splits
      dest: await_resolution_signal executeAndPostResult_props)

lemma consume_signals:
  "consume E st q fin = (out, st', acts) \<Longrightarrow> set (terminal_signals acts) \<subseteq> {TaskAborted}"
proof (induction E st q fin arbitrary: out st' acts rule: consume.induct)
  case (1 E st fin)
  then show ?case by simp
next
  case (2 E st x q fin)
  obtain r st1 a1 where x: "external E x st = (r, st1, a1)" by (cases "external E x st")
  obtain o2 st2 a2 where c: "consume E st1 q fin = (o2, st2, a2)"
    by (cases "consume E st1 q fin")
  from "2.prems" x c have acts: "acts = a1 @ a2" by simp
  from "2.IH" [OF x [symmetric] refl c] external_signals [OF x] acts show ?case
    by (simp add: terminal_signals_append)
next
  case (3 E st event q fin)
  show ?case
  proof (cases "aborted st")
    case True
    with "3.prems" show ?thesis by simp
  next
    case False
    obtain r st1 q1 a1 where h: "handleEvent E event st q = (r, st1, q1, a1)"
      by (cases "handleEvent E event st q")
    note hs = handleEvent_signals [OF h]
    show ?thesis
    proof (cases "r = Normal \<and> \<not> is_terminal event")
      case True
      obtain o2 st2 a2 where c: "consume E st1 q1 fin = (o2, st2, a2)"
        by (cases "consume E st1 q1 fin")
      from True h have h': "(Normal, st1, q1, a1) = handleEvent E event st q" by simp
      from "3.prems" False h True c have "acts = a1 @ a2" by simp
      with "3.IH" [OF False h' refl refl refl _ c] True hs show ?thesis
        by (simp add: terminal_signals_append)
    next
      case nn: False
      with "3.prems" \<open>\<not> aborted st\<close> h have "acts = a1"
        by (cases r) (auto split: if_splits)
      with hs show ?thesis by simp
    qed
  qed
qed


text \<open>
  Away from the abort, a run that starts signals one terminal state: \<open>taskCompleted\<close>
  with the task identifier when the loop ends without a failure, and \<open>taskAborted\<close>
  behind an error event with the message when the stream or a control call fails; it
  signals none while the loop waits for a human reply. An aborted run whose stream or
  control call fails signals \<open>taskAborted\<close> only, and no error event is added.
\<close>

lemma startTask_signals:
  assumes cn: "connect E = Inr c"
  shows "(External Abort \<notin> set q \<longrightarrow>
      (fst (consume E (session c params st0) q fin) = Normal \<longrightarrow>
         fst (startTask E (Inr params) st0 q fin) = Resolved
         \<and> terminal_signals (snd (snd (startTask E (Inr params) st0 q fin)))
             = [TaskCompleted (task_id params)])
    \<and> (\<forall>m. fst (consume E (session c params st0) q fin) = Threw m \<longrightarrow>
         fst (startTask E (Inr params) st0 q fin) = Resolved
         \<and> terminal_signals (snd (snd (startTask E (Inr params) st0 q fin))) = [TaskAborted]
         \<and> (\<exists>acts. snd (snd (startTask E (Inr params) st0 q fin))
               = acts @ [PostMessage (JStr ''error'') (JObj [(''message'', JStr m)]),
                         Emit TaskAborted]))
    \<and> (fst (consume E (session c params st0) q fin) = Pending \<longrightarrow>
         fst (startTask E (Inr params) st0 q fin) = Unsettled
         \<and> terminal_signals (snd (snd (startTask E (Inr params) st0 q fin))) = []))
   \<and> (\<forall>m. fst (consume E (session c params st0) q fin) = Threw m
           \<and> aborted (fst (snd (consume E (session c params st0) q fin))) \<longrightarrow>
         fst (startTask E (Inr params) st0 q fin) = Resolved
         \<and> set (terminal_signals (snd (snd (startTask E (Inr params) st0 q fin))))
             = {TaskAborted}
         \<and> forwarded (snd (snd (startTask E (Inr params) st0 q fin)))
             = forwarded (snd (snd (consume E (session c params st0) q fin))))"
proof -
  note ss = startTask_session [OF cn]
  obtain out st2 acts where c: "consume E (session c params st0) q fin = (out, st2, acts)"
    by (cases "consume E (session c params st0) q fin")
  have 1: "External Abort \<notin> set q \<longrightarrow>
      (fst (consume E (session c params st0) q fin) = Normal \<longrightarrow>
         fst (startTask E (Inr params) st0 q fin) = Resolved
         \<and> terminal_signals (snd (snd (startTask E (Inr params) st0 q fin)))
             = [TaskCompleted (task_id params)])
    \<and> (\<forall>m. fst (consume E (session c params st0) q fin) = Threw m \<longrightarrow>
         fst (startTask E (Inr params) st0 q fin) = Resolved
         \<and> terminal_signals (snd (snd (startTask E (Inr params) st0 q fin))) = [TaskAborted]
         \<and> (\<exists>acts. snd (snd (startTask E (Inr params) st0 q fin))
               = acts @ [PostMessage (JStr ''error'') (JObj [(''message'', JStr m)]),
                         Emit TaskAborted]))
    \<and> (fst (consume E (session c params st0) q fin) = Pending \<longrightarrow>
         fst (startTask E (Inr params) st0 q fin) = Unsettled
         \<and> terminal_signals (snd (snd (startTask E (Inr params) st0 q fin))) = [])"
  proof
    assume na: "External Abort \<notin> set q"
    from consume_no_abort [OF na c]
    have s: "terminal_signals acts = []" and a: "\<not> aborted st2"
      and t: "taskId st2 = task_id params"
      by (simp_all add: session_def)
    show "(fst (consume E (session c params st0) q fin) = Normal \<longrightarrow>
         fst (startTask E (Inr params) st0 q fin) = Resolved
         \<and> terminal_signals (snd (snd (startTask E (Inr params) st0 q fin)))
             = [TaskCompleted (task_id params)])
    \<and> (\<forall>m. fst (consume E (session c params st0) q fin) = Threw m \<longrightarrow>
         fst (startTask E (Inr params) st0 q fin) = Resolved
         \<and> terminal_signals (snd (snd (startTask E (Inr params) st0 q fin))) = [TaskAborted]
         \<and> (\<exists>acts. snd (snd (startTask E (Inr params) st0 q fin))
               = acts @ [PostMessage (JStr ''error'') (JObj [(''message'', JStr m)]),
                         Emit TaskAborted]))
    \<and> (fst (consume E (session c params st0) q fin) = Pending \<longrightarrow>
         fst (startTask E (Inr params) st0 q fin) = Unsettled
         \<and> terminal_signals (snd (snd (startTask E (Inr params) st0 q fin))) = [])"
      using c s a t by (cases out) (simp_all add: ss terminal_signals_append)
  qed
  have 2: "\<forall>m. fst (consume E (session c params st0) q fin) = Threw m
           \<and> aborted (fst (snd (consume E (session c params st0) q fin))) \<longrightarrow>
         fst (startTask E (Inr params) st0 q fin) = Resolved
         \<and> set (terminal_signals (snd (snd (startTask E (Inr params) st0 q fin))))
             = {TaskAborted}
         \<and> forwarded (snd (snd (startTask E (Inr params) st0 q fin)))
             = forwarded (snd (snd (consume E (session c params st0) q fin)))"
    using c consume_signals [OF c]
    by (cases out) (auto simp: ss terminal_signals_append forwarded_append)
  from 1 2 show ?thesis by (intro conjI)
qed

text \<open>
  A run that starts either returns, and then the project and task identifiers are empty
  and \<open>isRunning\<close> is false, whether the loop ended normally, by an abort or by a
  failure; or it waits for a human reply that no call resolves. It returns whenever the
  stream holds no \<open>ask\<close> or \<open>abortTask\<close> is called.
\<close>

lemma startTask_started_clears:
  assumes cn: "connect E = Inr c"
  shows "(case startTask E (Inr params) st0 q fin of
      (Resolved, st', acts) \<Rightarrow> projectId st' = [] \<and> taskId st' = [] \<and> \<not> isRunning st'
    | (Rejected m, st', acts) \<Rightarrow> False
    | (Unsettled, st', acts) \<Rightarrow> pendingHumanReply st' \<noteq> None)
   \<and> ((\<forall>e. Event e \<in> set q \<longrightarrow> step e \<noteq> JStr ''ask'') \<or> External Abort \<in> set q
        \<longrightarrow> fst (startTask E (Inr params) st0 q fin) = Resolved)"
proof -
  obtain out st2 acts where c: "consume E (session c params st0) q fin = (out, st2, acts)"
    by (cases "consume E (session c params st0) q fin")
  have 1: "out = Pending \<longrightarrow> pendingHumanReply st2 \<noteq> None"
    using c consume_Pending by blast
  have 2: "(\<forall>e. Event e \<in> set q \<longrightarrow> step e \<noteq> JStr ''ask'') \<or> External Abort \<in> set q
        \<longrightarrow> out \<noteq> Pending"
    using c consume_no_ask [of q E "session c params st0" fin]
      consume_abort_ahead [of "session c params st0" q E fin]
    by auto
  show ?thesis
    using c 1 2 by (cases out) (simp_all add: startTask_session [OF cn] isRunning_def)
qed

subsection \<open>The claims about the dispatch loop\<close>

text \<open>
  Claim C2 (terminal truncation). The loop forwards the events of the stream in their
  order and never beyond the first event whose step is \<open>end\<close>, \<open>error\<close> or
  \<open>timeout\<close>; a loop that ends normally and was not aborted has forwarded exactly the
  events up to and including that one. The whole run of the loop, what it forwards, what
  it dispatches and how it ends, does not depend on the events behind the first terminal
  event, nor on how the stream ends.
\<close>

theorem terminal_truncation:
  "prefix (forwarded (snd (snd (consume E st q fin)))) (up_to_terminal (events_of q))
   \<and> (fst (consume E st q fin) = Normal \<and> \<not> aborted (fst (snd (consume E st q fin)))
        \<longrightarrow> forwarded (snd (snd (consume E st q fin))) = up_to_terminal (events_of q))
   \<and> (list_ex is_terminal (events_of q)
        \<longrightarrow> consume E st q fin = consume E st (cut_after_terminal q) fin')"
proof -
  obtain out st' acts where c: "consume E st q fin = (out, st', acts)"
    by (cases "consume E st q fin")
  have "prefix (forwarded acts) (up_to_terminal (events_of q))"
    using c by (rule consume_forwarded_prefix)
  moreover have "out = Normal \<and> \<not> aborted st' \<longrightarrow> forwarded acts = up_to_terminal (events_of q)"
    using c consume_forwarded_all by blast
  moreover have "list_ex is_terminal (events_of q)
        \<longrightarrow> consume E st q fin = consume E st (cut_after_terminal q) fin'"
    using consume_cut by blast
  ultimately show ?thesis using c by simp
qed


lemma consume_stream_past_end:
  "consume accepting_env running stream_past_end None =
     (Normal, running,
      [PostMessage (JStr ''confirmed'') (JObj []),
       PostMessage (JStr ''execute_read_file'')
         (JObj [(''request_id'', JStr ''r2''), (''path'', JStr ''x.txt'')]),
       RunTool ''execute_read_file'' (JObj [(''request_id'', JStr ''r2''), (''path'', JStr ''x.txt'')]),
       CallToolResult ''p1'' (JStr ''r2'') ''execute_read_file'' (result_ok ''content''),
       PostMessage (JStr ''end'') (JObj [])])"
  by (simp add: stream_past_end_def ev_def running_def idle_def accepting_env_def handleEvent_def
      delegated_step_def executeAndPostResult_def run_tool_def toolResult_def is_terminal_def
      Let_def)

theorem terminal_truncation_witness:
  "forwarded (snd (snd (consume accepting_env running stream_past_end None)))
     = [ev ''confirmed'' [],
        ev ''execute_read_file'' [(''request_id'', JStr ''r2''), (''path'', JStr ''x.txt'')],
        ev ''end'' []]
   \<and> consume accepting_env running stream_past_end None
     = consume accepting_env running
         [Event (ev ''confirmed'' []),
          Event (ev ''execute_read_file''
                   [(''request_id'', JStr ''r2''), (''path'', JStr ''x.txt'')]),
          Event (ev ''end'' [])] (Some ''connection reset'')"
proof -
  have t: "list_ex is_terminal (events_of stream_past_end)"
    by (simp add: stream_past_end_def ev_def is_terminal_def)
  have n: "fst (consume accepting_env running stream_past_end None) = Normal
           \<and> \<not> aborted (fst (snd (consume accepting_env running stream_past_end None)))"
    by (simp add: consume_stream_past_end del: consume.simps)
  have u: "up_to_terminal (events_of stream_past_end)
     = [ev ''confirmed'' [],
        ev ''execute_read_file'' [(''request_id'', JStr ''r2''), (''path'', JStr ''x.txt'')],
        ev ''end'' []]"
    by (simp add: stream_past_end_def ev_def is_terminal_def)
  have k: "cut_after_terminal stream_past_end
     = [Event (ev ''confirmed'' []),
          Event (ev ''execute_read_file''
                   [(''request_id'', JStr ''r2''), (''path'', JStr ''x.txt'')]),
          Event (ev ''end'' [])]"
    by (simp add: stream_past_end_def ev_def is_terminal_def)
  note tt = terminal_truncation [of accepting_env running stream_past_end None
      "Some ''connection reset''"]
  from tt n have a: "forwarded (snd (snd (consume accepting_env running stream_past_end None)))
      = up_to_terminal (events_of stream_past_end)"
    by blast
  from tt t have b: "consume accepting_env running stream_past_end None
      = consume accepting_env running (cut_after_terminal stream_past_end)
          (Some ''connection reset'')"
    by blast
  from a u b k show ?thesis by (simp only:)
qed


text \<open>
  Claim C3. A task start should signal one terminal state. The code signals two when
  the task is aborted and the stream then ends: the stream yields an \<open>ask\<close>,
  \<open>abortTask\<close> is called during the wait and signals \<open>taskAborted\<close>, the wait
  resolves, the stream ends, the loop is left without a failure and \<open>startTask\<close> falls
  through to signal \<open>taskCompleted\<close> as well. When the stream fails instead of ending,
  the same aborted run signals \<open>taskAborted\<close> only.
\<close>

theorem abort_signals_aborted_and_completed:
  "set (terminal_signals (snd (snd (startTask accepting_env (Inr params_p1) idle
       [Event (ev ''ask'' [(''agent'', JStr ''a1'')]), External Abort] None))))
     = {TaskAborted, TaskCompleted ''p1''}
   \<and> set (terminal_signals (snd (snd (startTask accepting_env (Inr params_p1) idle
       [Event (ev ''ask'' [(''agent'', JStr ''a1'')]), External Abort]
       (Some ''connection reset'')))))
     = {TaskAborted}"
  by (simp add: startTask_session [OF connect_accepting_env] session_p1 ev_def
      handleEvent_def waitForHumanReply_def abortTask_def is_terminal_def Let_def)

lemma await_resolution_events:
  "await_resolution E st (map Event es @ q) =
     (case await_resolution E st q of
        None \<Rightarrow> None
      | Some (reply, st', q', acts) \<Rightarrow> Some (reply, st', map Event es @ q', acts))"
  by (induction es) (auto split: option.splits)

lemma abortTask_pending:
  "pendingHumanReply st = Some agent \<Longrightarrow>
   abortTask E st =
     (Some [], st\<lparr>aborted := True, pendingHumanReply := None\<rparr>,
      (if projectId st \<noteq> [] \<and> client st \<noteq> None then [CallStopChat (projectId st)] else [])
      @ [Emit TaskAborted])"
  by (simp add: abortTask_def Let_def)

text \<open>
  Claim C4 (abort unblocks the pending reply). \<open>abortTask\<close> on a pending human reply
  resolves the wait with the empty string and clears the slot. When the call that
  arrives during the wait of an \<open>ask\<close> event is \<open>abortTask\<close>, the handling of the
  event ends normally, what is observed is the forwarded event, the stop call and the
  abort signal, and neither it nor the rest of the loop issues a human-reply call.
\<close>

theorem abort_unblocks_pending_reply:
  assumes "pendingHumanReply st = Some agent"
    and "step event = JStr ''ask''"
  shows "fst (abortTask E st) = Some []
         \<and> pendingHumanReply (fst (snd (abortTask E st))) = None
         \<and> handleEvent E event st0 (map Event es @ External Abort # q) =
             (Normal, st0\<lparr>aborted := True, pendingHumanReply := None\<rparr>, map Event es @ q,
              PostMessage (step event) (data event)
              # (if projectId st0 \<noteq> [] \<and> client st0 \<noteq> None
                 then [CallStopChat (projectId st0)] else [])
              @ [Emit TaskAborted])
         \<and> (\<forall>p a r. CallHumanReply p a r \<notin>
               set (snd (snd (consume E st0 (Event event # map Event es @ External Abort # q)
                                fin))))"
proof -
  have "await_resolution E (st0\<lparr>pendingHumanReply := Some a\<rparr>) (map Event es @ External Abort # q)
      = Some ([], st0\<lparr>aborted := True, pendingHumanReply := None\<rparr>, map Event es @ q,
              (if projectId st0 \<noteq> [] \<and> client st0 \<noteq> None
                 then [CallStopChat (projectId st0)] else [])
              @ [Emit TaskAborted])" for a
    by (simp add: await_resolution_events abortTask_pending)
  then have h: "handleEvent E event st0 (map Event es @ External Abort # q) =
             (Normal, st0\<lparr>aborted := True, pendingHumanReply := None\<rparr>, map Event es @ q,
              PostMessage (step event) (data event)
              # (if projectId st0 \<noteq> [] \<and> client st0 \<noteq> None
                 then [CallStopChat (projectId st0)] else [])
              @ [Emit TaskAborted])"
    using assms(2) by (simp add: handleEvent_def waitForHumanReply_def Let_def)
  have nt: "\<not> is_terminal event"
    using assms(2) by (simp add: is_terminal_def)
  have "CallHumanReply p a r \<notin>
          set (snd (snd (consume E st0 (Event event # map Event es @ External Abort # q) fin)))"
    for p a r
  proof (cases "aborted st0")
    case True
    then show ?thesis by simp
  next
    case False
    let ?st1 = "st0\<lparr>aborted := True, pendingHumanReply := None\<rparr>"
    obtain out st2 acts where c: "consume E ?st1 (map Event es @ q) fin = (out, st2, acts)"
      by (cases "consume E ?st1 (map Event es @ q) fin")
    have "aborted ?st1" by simp
    from consume_aborted [OF this c]
    have "\<forall>x\<in>set acts. (\<exists>p. x = CallStopChat p) \<or> x = Emit TaskAborted" by simp
    then have "CallHumanReply p a r \<notin> set acts" by auto
    with False h nt c show ?thesis by simp
  qed
  with h assms(1) show ?thesis by (simp add: abortTask_pending)
qed

theorem abort_unblocks_pending_reply_witness:
  "fst (abortTask accepting_env (running\<lparr>pendingHumanReply := Some (JStr ''a1'')\<rparr>)) = Some []
   \<and> pendingHumanReply (fst (snd (abortTask accepting_env
        (running\<lparr>pendingHumanReply := Some (JStr ''a1'')\<rparr>)))) = None
   \<and> handleEvent accepting_env (ev ''ask'' [(''agent'', JStr ''a1'')]) running
        [Event (ev ''notice'' []), External Abort, External (Submit ''late'')]
     = (Normal, running\<lparr>aborted := True\<rparr>,
        [Event (ev ''notice'' []), External (Submit ''late'')],
        [PostMessage (JStr ''ask'') (JObj [(''agent'', JStr ''a1'')]), CallStopChat ''p1'',
         Emit TaskAborted])"
proof -
  have 1: "pendingHumanReply (running\<lparr>pendingHumanReply := Some (JStr ''a1'')\<rparr>)
             = Some (JStr ''a1'')"
    by simp
  have 2: "step (ev ''ask'' [(''agent'', JStr ''a1'')]) = JStr ''ask''"
    by (simp add: ev_def)
  show ?thesis
    using abort_unblocks_pending_reply [OF 1 2, of accepting_env running
        "[ev ''notice'' []]" "[External (Submit ''late'')]"]
    by (simp add: ev_def running_def idle_def)
qed


lemma delegated_step_not_ask: "delegated_step s = Some n \<Longrightarrow> s \<noteq> JStr ''ask''"
  by (auto simp: delegated_step_def split: if_splits)

text \<open>
  Claim C8. A delegated-execution event whose payload has no usable \<open>request_id\<close>, or
  that arrives when there is no client or the project identifier is empty, is dropped:
  the fields and the machine are unchanged, no tool runs and no tool-result call is
  issued. Only the forwarding of the event to the webview is observed.
\<close>

theorem delegated_event_dropped:
  assumes "delegated_step (step event) = Some toolName"
    and "\<not> truthy_opt (get_prop (data event) ''request_id'') \<or> client st = None
         \<or> projectId st = []"
  shows "executeAndPostResult E toolName (data event) st = (Normal, st, [])
         \<and> handleEvent E event st q = (Normal, st, q, [PostMessage (step event) (data event)])"
proof -
  from assms(2) have a: "executeAndPostResult E toolName (data event) st = (Normal, st, [])"
    by (auto simp: executeAndPostResult_def Let_def)
  from assms(1) have "step event \<noteq> JStr ''ask''" by (rule delegated_step_not_ask)
  with assms(1) a show ?thesis by (simp add: handleEvent_def Let_def)
qed

theorem delegated_event_dropped_witness:
  "executeAndPostResult accepting_env ''execute_read_file''
      (data (ev ''execute_read_file'' [(''path'', JStr ''x.txt'')])) running
     = (Normal, running, [])
   \<and> handleEvent accepting_env (ev ''execute_read_file'' [(''path'', JStr ''x.txt'')]) running []
     = (Normal, running, [],
        [PostMessage (JStr ''execute_read_file'') (JObj [(''path'', JStr ''x.txt'')])])"
proof -
  have 1: "delegated_step (step (ev ''execute_read_file'' [(''path'', JStr ''x.txt'')]))
             = Some ''execute_read_file''"
    by (simp add: ev_def delegated_step_def)
  have 2: "\<not> truthy_opt (get_prop (data (ev ''execute_read_file'' [(''path'', JStr ''x.txt'')]))
              ''request_id'')
           \<or> client running = None \<or> projectId running = []"
    by (simp add: ev_def)
  show ?thesis
    using delegated_event_dropped [OF 1 2, of accepting_env "[]"] by (simp add: ev_def)
qed


text \<open>
  Claim C9. The identifiers should be empty, and \<open>isRunning\<close> false, whenever
  \<open>startTask\<close> is over. The code assigns them before it awaits the API key and
  constructs the client, outside the \<open>try\<close>: when the secret store rejects,
  \<open>startTask\<close> rejects with the identifiers set, nothing is signalled, and \<open>isRunning\<close>
  is true although no task runs.
\<close>

theorem startTask_rejects_with_identifiers_set:
  "startTask locked_env (Inr params_p1) idle q fin
     = (Rejected ''secret store is locked'', idle\<lparr>projectId := ''p1'', taskId := ''p1''\<rparr>, [])
   \<and> isRunning (fst (snd (startTask locked_env (Inr params_p1) idle q fin)))"
  by (simp add: startTask_def connect_def locked_env_def accepting_env_def isRunning_def
      idle_def params_p1_def buildEigentChatParams_def Let_def)

section \<open>Properties of the tool executor\<close>

subsection \<open>Totality\<close>

lemma well_formed_simps [simp]:
  "well_formed (result_ok c)" "well_formed (result_fail m)"
  by (simp_all add: well_formed_def result_ok_def result_fail_def)













subsection \<open>Search and replace\<close>

lemma js_join_Cons: "ys \<noteq> [] \<Longrightarrow> js_join sep (x # ys) = x @ sep @ js_join sep ys"
  by (cases ys) simp_all

lemma replace_all_absent:
  "old \<noteq> [] \<Longrightarrow> find_sep old s = None \<Longrightarrow> replace_all old new s = s"
  by (induction s) (auto split: if_splits)

lemma replace_all_first:
  "old \<noteq> [] \<Longrightarrow> find_sep old s = Some (b, a) \<Longrightarrow>
   replace_all old new s = b @ new @ replace_all old new a"
proof (induction s arbitrary: b)
  case Nil
  then show ?case by simp
next
  case (Cons c cs)
  show ?case
  proof (cases "prefix old (c # cs)")
    case True
    with Cons.prems show ?thesis by auto
  next
    case False
    with Cons.prems obtain b' where "find_sep old cs = Some (b', a)" and "b = c # b'"
      by auto
    with Cons.IH [of b'] Cons.prems(1) False show ?thesis by simp
  qed
qed

lemma split_join_replace_all:
  "old \<noteq> [] \<Longrightarrow> js_join new (js_split old s) = replace_all old new s"
proof (induction old s rule: split_on.induct)
  case (1 sep s)
  show ?case
  proof (cases "find_sep sep s")
    case None
    with 1 have "split_on sep s = [s]" by (subst split_on.simps) simp
    with 1 None show ?thesis by (simp add: js_split_def replace_all_absent)
  next
    case (Some p)
    obtain b a where p: "p = (b, a)" by (cases p)
    with Some have f: "find_sep sep s = Some (b, a)" by simp
    from 1 f have s: "split_on sep s = b # split_on sep a" by (subst split_on.simps) simp
    from 1 f have "js_join new (js_split sep a) = replace_all sep new a" by simp
    with 1 s show ?thesis
      by (simp add: js_split_def js_join_Cons split_on_not_Nil replace_all_first [OF _ f])
  qed
qed

lemma replace_all_length_le:
  "old \<noteq> [] \<Longrightarrow> length new \<le> length old \<Longrightarrow> length (replace_all old new s) \<le> length s"
proof (induction old new s rule: replace_all.induct)
  case (1 old new)
  then show ?case by simp
next
  case (2 old new c cs)
  show ?case
  proof (cases "prefix old (c # cs)")
    case True
    then have "length old \<le> length (c # cs)" by (rule prefix_length_le)
    with 2 True show ?thesis by simp
  next
    case False
    with 2 show ?thesis by simp
  qed
qed

lemma replace_all_length_ge:
  "old \<noteq> [] \<Longrightarrow> length old \<le> length new \<Longrightarrow> length s \<le> length (replace_all old new s)"
proof (induction old new s rule: replace_all.induct)
  case (1 old new)
  then show ?case by simp
next
  case (2 old new c cs)
  show ?case
  proof (cases "prefix old (c # cs)")
    case True
    then have "length old \<le> length (c # cs)" by (rule prefix_length_le)
    with 2 True show ?thesis by simp
  next
    case False
    with 2 show ?thesis by simp
  qed
qed

lemma replace_all_changes:
  assumes "old \<noteq> []" and "old \<noteq> new" and "find_sep old s = Some (b, a)"
  shows "replace_all old new s \<noteq> s"
proof
  assume eq: "replace_all old new s = s"
  from find_sep_Some [OF assms(3)] have s: "s = b @ old @ a" .
  from replace_all_first [OF assms(1,3)] eq s
  have e: "new @ replace_all old new a = old @ a" by simp
  consider "length new = length old" | "length new < length old" | "length old < length new"
    by linarith
  then show False
  proof cases
    case 1
    with e have "new = old" by (simp add: append_eq_append_conv)
    with assms(2) show False by simp
  next
    case 2
    with replace_all_length_le [OF assms(1), of new a]
    have "length (new @ replace_all old new a) < length (old @ a)" by simp
    with e show False by simp
  next
    case 3
    with replace_all_length_ge [OF assms(1), of new a]
    have "length (old @ a) < length (new @ replace_all old new a)" by simp
    with e show False by simp
  qed
qed

lemma replace_all_same: "old \<noteq> [] \<Longrightarrow> replace_all old old s = s"
proof (induction old s rule: split_on.induct)
  case (1 sep s)
  show ?case
  proof (cases "find_sep sep s")
    case None
    with 1 show ?thesis by (simp add: replace_all_absent)
  next
    case (Some p)
    obtain b a where p: "p = (b, a)" by (cases p)
    with Some have f: "find_sep sep s = Some (b, a)" by simp
    from 1 f have "replace_all sep sep a = a" by simp
    with replace_all_first [OF "1.prems" f, of sep] find_sep_Some [OF f] show ?thesis by simp
  qed
qed

lemma replace_all_unchanged_iff:
  "old \<noteq> [] \<Longrightarrow> replace_all old new s = s \<longleftrightarrow> find_sep old s = None \<or> old = new"
  by (cases "find_sep old s")
    (auto simp: replace_all_absent replace_all_same dest: replace_all_changes)

text \<open>
  Claim C6, amended. For an \<open>old_string\<close> that is not empty and a file that can be
  read, the new content is the content with every occurrence of \<open>old_string\<close> replaced
  literally by \<open>new_string\<close>. When it equals the content, which is when \<open>old_string\<close>
  does not occur or equals \<open>new_string\<close>, the result is the success with the no-changes
  message and nothing is written: the machine is unchanged. Otherwise the new content is
  written, and the result is the success with the completed message when the write
  succeeds and the failure with the message of the write when it throws.
\<close>

theorem search_replace_literal:
  assumes "sr_old_string d \<noteq> []"
    and "fs_readFile P w (resolvePath P ws (sr_path d)) = Inr bytes"
    and "c = text_decode P bytes"
    and "c' = replace_all (sr_old_string d) (sr_new_string d) c"
  shows "(c' = c \<longrightarrow>
            executeSearchReplace P ws d w
              = (result_ok ''No changes needed (old_string not found)'', w))
       \<and> (c' \<noteq> c \<longrightarrow>
            executeSearchReplace P ws d w
              = (case fs_writeFile P w (resolvePath P ws (sr_path d)) (text_encode P c') of
                   (None, w') \<Rightarrow> (result_ok ''Search and replace completed'', w')
                 | (Some m, w') \<Rightarrow> (result_fail m, w')))
       \<and> (c' = c \<longleftrightarrow> find_sep (sr_old_string d) c = None \<or> sr_old_string d = sr_new_string d)"
proof -
  from assms(1) have j: "js_join (sr_new_string d) (js_split (sr_old_string d) c) = c'"
    by (simp add: assms(4) split_join_replace_all)
  have "c' = c \<longleftrightarrow> find_sep (sr_old_string d) c = None \<or> sr_old_string d = sr_new_string d"
    using replace_all_unchanged_iff [OF assms(1)] by (simp add: assms(4))
  moreover have "c' = c \<longrightarrow>
            executeSearchReplace P ws d w
              = (result_ok ''No changes needed (old_string not found)'', w)"
    using assms(2) j by (auto simp: executeSearchReplace_def Let_def assms(3)[symmetric])
  moreover have "c' \<noteq> c \<longrightarrow>
            executeSearchReplace P ws d w
              = (case fs_writeFile P w (resolvePath P ws (sr_path d)) (text_encode P c') of
                   (None, w') \<Rightarrow> (result_ok ''Search and replace completed'', w')
                 | (Some m, w') \<Rightarrow> (result_fail m, w'))"
    using assms(2) j by (auto simp: executeSearchReplace_def Let_def assms(3)[symmetric])
  ultimately show ?thesis by blast
qed


lemma decode_abc: "text_decode mem_platform [97, 98, 99] = ''abc''"
  by code_simp

lemma read_f: "fs_readFile mem_platform file_abc (resolvePath mem_platform ''/ws'' ''f'')
    = Inr [97, 98, 99]"
  by (simp add: mem_platform_def file_abc_def resolvePath_def)

theorem search_replace_literal_witness:
  "executeSearchReplace mem_platform ''/ws'' (replace_in_f ''xyz'' ''q'') file_abc
     = (result_ok ''No changes needed (old_string not found)'', file_abc)
   \<and> executeSearchReplace mem_platform ''/ws'' (replace_in_f ''b'' ''XY'') file_abc
     = (result_ok ''Search and replace completed'', (''/ws/f'', [97, 88, 89, 99]) # file_abc)"
proof -
  have 1: "sr_old_string (replace_in_f ''xyz'' ''q'') \<noteq> []" by (simp add: replace_in_f_def)
  have 2: "sr_old_string (replace_in_f ''b'' ''XY'') \<noteq> []" by (simp add: replace_in_f_def)
  have r1: "fs_readFile mem_platform file_abc
      (resolvePath mem_platform ''/ws'' (sr_path (replace_in_f ''xyz'' ''q''))) = Inr [97, 98, 99]"
    by (simp add: replace_in_f_def read_f)
  have r2: "fs_readFile mem_platform file_abc
      (resolvePath mem_platform ''/ws'' (sr_path (replace_in_f ''b'' ''XY''))) = Inr [97, 98, 99]"
    by (simp add: replace_in_f_def read_f)
  have a: "replace_all ''xyz'' ''q'' ''abc'' = ''abc''" by simp
  have b: "replace_all ''b'' ''XY'' ''abc'' = ''aXYc''" by simp
  have e: "text_encode mem_platform ''aXYc'' = [97, 88, 89, 99]"
    by (simp add: mem_platform_def)
  have p: "resolvePath mem_platform ''/ws'' ''f'' = ''/ws/f''"
    by (simp add: mem_platform_def resolvePath_def)
  have wr: "fs_writeFile mem_platform file_abc ''/ws/f'' [97, 88, 89, 99]
      = (None, (''/ws/f'', [97, 88, 89, 99]) # file_abc)"
    by (simp add: mem_platform_def)
  from search_replace_literal [OF 1 r1 decode_abc [symmetric] refl]
  have x: "executeSearchReplace mem_platform ''/ws'' (replace_in_f ''xyz'' ''q'') file_abc
     = (result_ok ''No changes needed (old_string not found)'', file_abc)"
    by (simp add: replace_in_f_def)
  from search_replace_literal [OF 2 r2 decode_abc [symmetric] refl]
  have y: "executeSearchReplace mem_platform ''/ws'' (replace_in_f ''b'' ''XY'') file_abc
     = (result_ok ''Search and replace completed'', (''/ws/f'', [97, 88, 89, 99]) # file_abc)"
    by (simp add: replace_in_f_def e p wr)
  from x y show ?thesis by simp
qed


text \<open>
  Claim C6 fails as it is stated, at two inputs. For the empty \<open>old_string\<close> on the
  content \<open>abc\<close> the code splits into the single characters and joins them with
  \<open>new_string\<close>, so the file holds \<open>aXbXc\<close>, while replacing every occurrence of the
  empty string gives \<open>XaXbXcX\<close>. And for a file that can be read but not written, the
  content changes and the result is the failure of the write, not the success with the
  completed message.
\<close>

theorem search_replace_empty_old_string:
  "fs_readFile mem_platform
      (snd (executeSearchReplace mem_platform ''/ws'' (replace_in_f [] ''X'') file_abc)) ''/ws/f''
     = Inr (text_encode mem_platform ''aXbXc'')
   \<and> replace_all [] ''X'' ''abc'' = ''XaXbXcX''
   \<and> executeSearchReplace mem_platform ''/ws''
        \<lparr>sr_request_id = ''r1'', sr_path = ''/'', sr_old_string = ''b'', sr_new_string = ''X''\<rparr>
        [(''/'', [97, 98, 99])]
     = (result_fail ''NoPermissions'', [(''/'', [97, 98, 99])])"
  by code_simp

section \<open>Properties of the request\<close>

text \<open>
  Claim C10. \<open>buildEigentChatParams\<close> gives the project identifier and the task
  identifier the same value: the one identifier that was generated.
\<close>

theorem buildEigentChatParams_one_identifier:
  "project_id (buildEigentChatParams uuid model_id dw cfg q images wp)
     = task_id (buildEigentChatParams uuid model_id dw cfg q images wp)
   \<and> task_id (buildEigentChatParams uuid model_id dw cfg q images wp) = uuid"
  by (simp add: buildEigentChatParams_def Let_def)


lemma toChatBody_keys:
  "set (map fst (toChatBody params)) \<subseteq>
     {''task_id'', ''project_id'', ''question'', ''email'', ''attaches'', ''model_platform'',
      ''model_type'', ''api_key'', ''language'', ''browser_port'', ''max_retries'',
      ''allow_local_system'', ''installed_mcp'', ''api_url'', ''env_path''}"
  by (auto simp: toChatBody_def split: option.splits)

lemma startChat_not_ok:
  "\<not> res_ok res \<Longrightarrow>
   snd (startChat S JP dec d0 c params (Inr res)) =
     ([], Some (''Eigent startChat failed: '' @ string_of_nat (res_status res) @ '' ''
                @ res_statusText res @ '' - '' @ res_text res))"
  by (simp add: startChat_def)

text \<open>
  Claim C7. The body of the request of \<open>startChat\<close> is the serialized \<open>toChatBody\<close>,
  which lists the fields one by one and leaves out \<open>file_save_path\<close>: the parameters
  that \<open>buildEigentChatParams\<close> builds hold the workspace root in that field, and the
  body sent has no such member.
\<close>

theorem startChat_body_without_file_save_path:
  "file_save_path params_p1 = Some ''/ws''
   \<and> req_body (fst (startChat S JP dec d0 c params_p1 fetched))
       = Some (S (JObj (toChatBody params_p1)))
   \<and> map_of (toChatBody params_p1) ''file_save_path'' = None"
  by (simp add: params_p1_def buildEigentChatParams_def Let_def startChat_def
      startChat_request_def toChatBody_def getApiUrl_def)


end
